theory Spec2Isabelle
  imports Main
begin

section \<open>Text\<close>

text \<open>
  A Python \<open>str\<close> is modelled as a \<^typ>\<open>string\<close>; one \<^typ>\<open>char\<close> stands for one
  character of the Python string, so \<^const>\<open>length\<close> is Python's \<open>len\<close> and
  \<^const>\<open>take\<close> is the slice \<open>s[:n]\<close>.
\<close>

abbreviation TAB :: char where "TAB \<equiv> CHR 0x09"
abbreviation LF :: char where "LF \<equiv> CHR 0x0A"
abbreviation CR :: char where "CR \<equiv> CHR 0x0D"
abbreviation LBRACE :: char where "LBRACE \<equiv> CHR 0x7B"
abbreviation COLON :: char where "COLON \<equiv> CHR 0x3A"

text \<open>\<open>s.split(d)\<close> for a one-character separator: \<open>n\<close> separators give \<open>n + 1\<close> fields.\<close>

fun split_on :: "char \<Rightarrow> string \<Rightarrow> string list" where
  "split_on d [] = [[]]"
| "split_on d (c # cs) =
     (if c = d then [] # split_on d cs
      else (case split_on d cs of [] \<Rightarrow> [[c]] | f # fs \<Rightarrow> (c # f) # fs))"

text \<open>\<open>s.replace('\t\r', '')\<close>: every occurrence, scanned from the left, is deleted.\<close>

fun remove_tab_cr :: "string \<Rightarrow> string" where
  "remove_tab_cr (a # b # cs) =
     (if a = TAB \<and> b = CR then remove_tab_cr cs else a # remove_tab_cr (b # cs))"
| "remove_tab_cr cs = cs"

text \<open>Whether \<open>"\t\r"\<close> occurs in a string.\<close>

fun has_tab_cr :: "string \<Rightarrow> bool" where
  "has_tab_cr (a # b # cs) = ((a = TAB \<and> b = CR) \<or> has_tab_cr (b # cs))"
| "has_tab_cr cs = False"

section \<open>Errors\<close>

datatype error =
    IndexError
  | FileProcessingError string
  | DataValidationError string
  | DataEnrichmentError string
  | DatabaseError string

section \<open>Recovery of lines that carry a JSON payload\<close>

text \<open>
  \<open>re.findall("{", line)\<close> is non-empty exactly when the line has an opening brace: the
  filter of the list comprehension in \<open>readErroneusLines\<close> and \<open>_read_erroneous_lines\<close>.
\<close>

definition has_brace :: "string \<Rightarrow> bool" where
  "has_brace line = (LBRACE \<in> set line)"

text \<open>
  \<open>re.findall(".*{.*", line)\<close>. The dot matches every character but the line feed and
  both stars are greedy, so a match is tried from the start of each run of characters
  between line feeds, and it is the whole run when the run has a brace: the first star
  takes everything up to the run's last brace, the second everything after it.
\<close>

definition findall_brace :: "string \<Rightarrow> string list" where
  "findall_brace line = filter has_brace (split_on LF line)"

text \<open>\<open>re.findall(".*{.*", line)[0].replace("\t\r", "")\<close>; \<open>[0]\<close> of an empty list raises.\<close>

definition json_line :: "string \<Rightarrow> error + string" where
  "json_line line =
     (case findall_brace line of [] \<Rightarrow> Inl IndexError | m # ms \<Rightarrow> Inr (remove_tab_cr m))"

text \<open>A list comprehension whose element expression may raise: the first error wins.\<close>

fun collect :: "('a \<Rightarrow> error + 'b) \<Rightarrow> 'a list \<Rightarrow> error + 'b list" where
  "collect f [] = Inr []"
| "collect f (x # xs) =
     (case f x of Inl e \<Rightarrow> Inl e
      | Inr y \<Rightarrow> (case collect f xs of Inl e \<Rightarrow> Inl e | Inr ys \<Rightarrow> Inr (y # ys)))"

definition json_lines :: "string list \<Rightarrow> error + string list" where
  "json_lines lines = collect json_line (filter has_brace lines)"

text \<open>The body of the loop over the split lines: ten fields are merged, seven are kept.\<close>

definition correct_line :: "string list \<Rightarrow> string list option" where
  "correct_line line =
     (if length line = 10
      then Some (take 6 line @ [line ! 6 @ line ! 7 @ line ! 8 @ line ! 9])
      else if length line = 7 then Some line
      else None)"

definition lines_corrected :: "string list list \<Rightarrow> string list list" where
  "lines_corrected lines_split = List.map_filter correct_line lines_split"

text \<open>\<open>funcs.readErroneusLines\<close>, from the list that \<open>file.readlines()\<close> returned.\<close>

definition readErroneusLines :: "string list \<Rightarrow> error + string list list" where
  "readErroneusLines lines =
     (case json_lines lines of Inl e \<Rightarrow> Inl e
      | Inr js \<Rightarrow> Inr (lines_corrected (map (split_on TAB) js)))"

section \<open>Record sets\<close>

text \<open>
  A pandas \<open>DataFrame\<close> is its list of column labels and its list of rows, a row being the
  list of its cells in column order. A label is a name or, before renaming, a position.
  A cell is a text or missing (\<open>NaN\<close>, \<open>None\<close>); a number that the CSV reader inferred is
  represented by its text.
\<close>

datatype label = Name string | Pos nat

datatype cell = Str string | NaN

record frame =
  columns :: "label list"
  rows :: "cell list list"

text \<open>Labels are distinct and every row has one cell per column.\<close>

definition wf_frame :: "frame \<Rightarrow> bool" where
  "wf_frame d = (distinct (columns d) \<and> list_all (\<lambda>r. length r = length (columns d)) (rows d))"

text \<open>\<open>pd.DataFrame()\<close> and \<open>df.empty\<close> (an axis of length zero).\<close>

definition empty_frame :: frame where
  "empty_frame = \<lparr>columns = [], rows = []\<rparr>"

definition frame_empty :: "frame \<Rightarrow> bool" where
  "frame_empty d = (columns d = [] \<or> rows d = [])"

text \<open>The cell of a row under a label; a label the frame does not have reads as missing.\<close>

definition cell_at :: "label list \<Rightarrow> cell list \<Rightarrow> label \<Rightarrow> cell" where
  "cell_at cols r c = (case map_of (zip cols r) c of Some v \<Rightarrow> v | None \<Rightarrow> NaN)"

text \<open>A row with every cell replaced by a value computed from its label and itself.\<close>

definition update_row :: "label list \<Rightarrow> (label \<Rightarrow> cell \<Rightarrow> cell) \<Rightarrow> cell list \<Rightarrow> cell list" where
  "update_row cols F r = map (\<lambda>(l, v). F l v) (zip cols r)"

text \<open>\<open>data[col] = f(data[col])\<close> for an element-wise \<open>f\<close>.\<close>

definition map_column :: "label \<Rightarrow> (cell \<Rightarrow> cell) \<Rightarrow> frame \<Rightarrow> frame" where
  "map_column c f d =
     d\<lparr>rows := map (update_row (columns d) (\<lambda>l v. if l = c then f v else v)) (rows d)\<rparr>"

text \<open>
  \<open>data[col] = series\<close>, the series given by its value \<open>g r\<close> in each row \<open>r\<close>: an existing
  column is overwritten in place, a new one is appended.
\<close>

definition set_cell :: "label \<Rightarrow> (cell list \<Rightarrow> cell) \<Rightarrow> label list \<Rightarrow> cell list \<Rightarrow> cell list" where
  "set_cell c g cols r =
     (if c \<in> set cols then update_row cols (\<lambda>l v. if l = c then g r else v) r else r @ [g r])"

definition set_column :: "label \<Rightarrow> (cell list \<Rightarrow> cell) \<Rightarrow> frame \<Rightarrow> frame" where
  "set_column c g d =
     \<lparr>columns = (if c \<in> set (columns d) then columns d else columns d @ [c]),
      rows = map (set_cell c g (columns d)) (rows d)\<rparr>"

text \<open>\<open>data[cols]\<close>: the listed columns, in the listed order.\<close>

definition select_columns :: "label list \<Rightarrow> frame \<Rightarrow> frame" where
  "select_columns cols d =
     \<lparr>columns = cols, rows = map (\<lambda>r. map (cell_at (columns d) r) cols) (rows d)\<rparr>"

text \<open>\<open>df.dropna(axis=1, how="all")\<close>: a column without any value is dropped.\<close>

definition dropna_columns :: "frame \<Rightarrow> frame" where
  "dropna_columns d =
     select_columns
       (filter (\<lambda>c. list_ex (\<lambda>r. cell_at (columns d) r c \<noteq> NaN) (rows d)) (columns d)) d"

text \<open>\<open>df.dropna(how="all")\<close>: a row without any value is dropped.\<close>

definition all_missing :: "cell list \<Rightarrow> bool" where
  "all_missing r = list_all (\<lambda>v. v = NaN) r"

definition dropna_rows :: "frame \<Rightarrow> frame" where
  "dropna_rows d = d\<lparr>rows := filter (\<lambda>r. \<not> all_missing r) (rows d)\<rparr>"

text \<open>\<open>df.fillna("")\<close>.\<close>

definition fill_cell :: "cell \<Rightarrow> cell" where
  "fill_cell v = (case v of NaN \<Rightarrow> Str [] | Str s \<Rightarrow> Str s)"

definition fillna :: "frame \<Rightarrow> frame" where
  "fillna d = d\<lparr>rows := map (map fill_cell) (rows d)\<rparr>"

text \<open>
  \<open>pd.concat([a, b], ignore_index=True)\<close>: the columns of \<open>a\<close>, then those only \<open>b\<close> has;
  the rows of \<open>a\<close>, then those of \<open>b\<close>, each read by label, missing where it has no such
  column.
\<close>

definition concat_frames :: "frame \<Rightarrow> frame \<Rightarrow> frame" where
  "concat_frames a b =
     (let cols = columns a @ filter (\<lambda>c. c \<notin> set (columns a)) (columns b)
      in \<lparr>columns = cols,
          rows = map (\<lambda>r. map (cell_at (columns a) r) cols) (rows a)
               @ map (\<lambda>r. map (cell_at (columns b) r) cols) (rows b)\<rparr>)"

text \<open>
  \<open>pd.DataFrame(list_of_lists)\<close>: positional labels, as many as the longest list has
  items, a shorter list filled up with missing cells.
\<close>

definition DataFrame :: "string list list \<Rightarrow> frame" where
  "DataFrame ls =
     (let n = fold max (map length ls) 0
      in \<lparr>columns = map Pos [0..<n],
          rows = map (\<lambda>l. map Str l @ replicate (n - length l) NaN) ls\<rparr>)"

section \<open>File types and schemas\<close>

datatype file_type = ValidationOk | ValidationError

definition VALIDATION_OK :: string where
  "VALIDATION_OK = ''ValidationOk''"

definition VALIDATION_ERROR :: string where
  "VALIDATION_ERROR = ''ValidationError''"

fun type_name :: "file_type \<Rightarrow> string" where
  "type_name ValidationOk = VALIDATION_OK"
| "type_name ValidationError = VALIDATION_ERROR"

definition VALIDATION_OK_COLS :: "string list" where
  "VALIDATION_OK_COLS =
     [''BankName'', ''AccountNumber'', ''ShebaNumber'',
      ''NationalCode'', ''TransactionTime'', ''Status'']"

definition VALIDATION_ERROR_COLS :: "string list" where
  "VALIDATION_ERROR_COLS =
     [''BankName'', ''AccountNumber'', ''ShebaNumber'',
      ''NationalCode'', ''TransactionTime'', ''ErrorCode'', ''Status'']"

section \<open>The file classifier\<close>

text \<open>\<open>\d\<close>, for the characters a \<^typ>\<open>char\<close> can hold.\<close>

definition is_digit :: "char \<Rightarrow> bool" where
  "is_digit c = (c \<in> set ''0123456789'')"

text \<open>Matching a literal at the start of a string: what follows it, if it is there.\<close>

fun match_lit :: "string \<Rightarrow> string \<Rightarrow> string option" where
  "match_lit [] s = Some s"
| "match_lit (a # as) [] = None"
| "match_lit (a # as) (c # cs) = (if a = c then match_lit as cs else None)"

text \<open>
  One alternative of \<open>FILE_PATTERN = (ValidationError|ValidationOk)\d*\.txt\<close> at the start
  of a string: the tag, all the digits that follow (a dot is no digit, so giving digits
  back cannot help), then \<open>.txt\<close>.
\<close>

definition match_alt :: "string \<Rightarrow> string \<Rightarrow> string option" where
  "match_alt tag s =
     (case match_lit tag s of None \<Rightarrow> None
      | Some r \<Rightarrow> (case match_lit ''.txt'' (dropWhile is_digit r) of None \<Rightarrow> None
                   | Some r' \<Rightarrow> Some tag))"

text \<open>The pattern at the start of a string, the alternatives in their order; the group.\<close>

definition match_here :: "string \<Rightarrow> string option" where
  "match_here s =
     (case match_alt ''ValidationError'' s of Some t \<Rightarrow> Some t
      | None \<Rightarrow> match_alt ''ValidationOk'' s)"

text \<open>
  \<open>re.findall(FILE_PATTERN, name)\<close> scans from the left; only whether the list is empty
  and its first item, the group of the leftmost match, are used.
\<close>

fun first_match :: "string \<Rightarrow> string option" where
  "first_match [] = match_here []"
| "first_match (c # cs) =
     (case match_here (c # cs) of Some t \<Rightarrow> Some t | None \<Rightarrow> first_match cs)"

text \<open>
  \<open>FileHandler.detect_file_type\<close>, on \<open>file_path.name\<close>. The group is checked against
  \<open>VALID_TYPES\<close>; from here on a file type is one of the two values.
\<close>

definition file_type_of :: "string \<Rightarrow> file_type option" where
  "file_type_of t =
     (if t = VALIDATION_OK then Some ValidationOk
      else if t = VALIDATION_ERROR then Some ValidationError
      else None)"

definition detect_file_type :: "string \<Rightarrow> error + file_type" where
  "detect_file_type name =
     (case first_match name of
        None \<Rightarrow> Inl (FileProcessingError (''Cannot detect file type for: '' @ name))
      | Some t \<Rightarrow>
          (case file_type_of t of
             None \<Rightarrow> Inl (FileProcessingError (''Unknown file type: '' @ t))
           | Some ft \<Rightarrow> Inr ft))"

section \<open>Loading a file\<close>

text \<open>
  \<open>FileHandler._rename_columns\<close>: \<open>cols_to_rename\<close> maps the position \<open>i\<close> to the \<open>i\<close>-th
  expected name as long as \<open>i\<close> is below the number of columns, and \<open>rename\<close> replaces the
  labels that are keys of it.
\<close>

fun expected_cols :: "file_type \<Rightarrow> string list" where
  "expected_cols ValidationOk =
     [''BankName'', ''AccountNumber'', ''ShebaNumber'',
      ''NationalCode'', ''TransactionTime'', ''Status'']"
| "expected_cols ValidationError =
     [''BankName'', ''AccountNumber'', ''ShebaNumber'',
      ''NationalCode'', ''TransactionTime'', ''ErrorCode'', ''Status'']"

definition rename_columns :: "frame \<Rightarrow> file_type \<Rightarrow> frame" where
  "rename_columns df ft =
     df\<lparr>columns :=
          map (\<lambda>l. case l of
                      Pos i \<Rightarrow> if i < length (expected_cols ft) \<and> i < length (columns df)
                               then Name (expected_cols ft ! i) else Pos i
                    | Name s \<Rightarrow> Name s)
              (columns df)\<rparr>"

text \<open>
  \<open>FileHandler._read_erroneous_lines\<close>, from the list that \<open>file.readlines()\<close> returned. An
  exception inside it is caught and gives the empty frame.
\<close>

definition read_erroneous_lines :: "string list \<Rightarrow> frame" where
  "read_erroneous_lines lines =
     (case json_lines lines of
        Inl e \<Rightarrow> empty_frame
      | Inr js \<Rightarrow>
          if js = [] then empty_frame
          else rename_columns (DataFrame (lines_corrected (map (split_on TAB) js)))
                 ValidationError)"

text \<open>
  \<open>FileHandler.load_text_files\<close>. The CSV reader is not part of the repository: \<open>parsed\<close> is
  the frame that \<open>pd.read_csv(..., header=None, on_bad_lines="skip")\<close> returned for the
  file and \<open>lines\<close> the file's lines as \<open>readlines\<close> returned them.
\<close>

definition load_text_files :: "frame \<Rightarrow> string list \<Rightarrow> file_type \<Rightarrow> frame" where
  "load_text_files parsed lines ft =
     (let df = rename_columns (dropna_columns parsed) ft
      in if ft = ValidationError
         then (let recovered_df = read_erroneous_lines lines
               in if \<not> frame_empty recovered_df then concat_frames df recovered_df else df)
         else df)"

section \<open>Cleaning\<close>

text \<open>
  \<open>Series.astype(str)\<close> leaves a text as it is. What it makes of a missing value is the
  library's choice (the text \<open>nan\<close> in pandas 1 and 2, still missing in pandas 3): the
  parameter \<open>na\<close>.
\<close>

definition astype_str :: "cell \<Rightarrow> cell \<Rightarrow> cell" where
  "astype_str na v = (case v of Str s \<Rightarrow> Str s | NaN \<Rightarrow> na)"

text \<open>
  The match of \<open>^.*?:\<close> at the start of a string, as what is left after it: the lazy star
  stops at the first colon and cannot pass a line feed.
\<close>

fun after_label :: "string \<Rightarrow> string option" where
  "after_label [] = None"
| "after_label (c # cs) =
     (if c = COLON then Some cs else if c = LF then None else after_label cs)"

text \<open>\<open>re.sub("^.*?:", "", s)\<close>: the pattern can match at the start only.\<close>

definition sub_label :: "string \<Rightarrow> string" where
  "sub_label s = (case after_label s of Some rest \<Rightarrow> rest | None \<Rightarrow> s)"

text \<open>\<open>str.isspace\<close> for the characters a \<^typ>\<open>char\<close> can hold, and \<open>str.strip()\<close>.\<close>

definition is_space :: "char \<Rightarrow> bool" where
  "is_space c =
     (c \<in> set [CHR 0x09, CHR 0x0A, CHR 0x0B, CHR 0x0C, CHR 0x0D, CHR 0x1C, CHR 0x1D,
               CHR 0x1E, CHR 0x1F, CHR 0x20, CHR 0x85, CHR 0xA0])"

definition strip :: "string \<Rightarrow> string" where
  "strip s = rev (dropWhile is_space (rev (dropWhile is_space s)))"

text \<open>The \<open>.str\<close> methods work on the texts of a column and leave a missing cell missing.\<close>

definition str_map :: "(string \<Rightarrow> string) \<Rightarrow> cell \<Rightarrow> cell" where
  "str_map f v = (case v of Str s \<Rightarrow> Str (f s) | NaN \<Rightarrow> NaN)"

text \<open>\<open>.astype(str).str.replace(r"^.*?:", "", regex=True).str.strip()\<close> on one cell.\<close>

definition clean_cell :: "cell \<Rightarrow> cell \<Rightarrow> cell" where
  "clean_cell na v = str_map strip (str_map sub_label (astype_str na v))"

text \<open>The test \<open>isinstance(col, str) and col in VALIDATION_OK_COLS + VALIDATION_ERROR_COLS\<close>.\<close>

definition known_column :: "label \<Rightarrow> bool" where
  "known_column col =
     (case col of
        Name s \<Rightarrow> s \<in> set (VALIDATION_OK_COLS @ VALIDATION_ERROR_COLS)
      | Pos i \<Rightarrow> False)"

text \<open>\<open>DataProcessor.make_data_clean\<close>; the file type is not used by it.\<close>

definition clean_columns :: "cell \<Rightarrow> frame \<Rightarrow> frame" where
  "clean_columns na data =
     fold (\<lambda>col d. if known_column col then map_column col (clean_cell na) d else d)
          (columns data) data"

definition make_data_clean :: "cell \<Rightarrow> frame \<Rightarrow> file_type \<Rightarrow> frame" where
  "make_data_clean na data ft = fillna (dropna_rows (clean_columns na data))"

section \<open>Enrichment\<close>

fun column_order :: "file_type \<Rightarrow> string list" where
  "column_order ValidationOk =
     [''BankName'', ''AccountNumber'', ''ShebaNumber'', ''NationalCode'',
      ''Date'', ''TransactionTime'', ''Status'',
      ''FileName'', ''Type'', ''ProcessedAt'']"
| "column_order ValidationError =
     [''BankName'', ''AccountNumber'', ''ShebaNumber'', ''NationalCode'',
      ''Date'', ''TransactionTime'', ''ErrorCode'', ''Status'',
      ''FileName'', ''Type'', ''ProcessedAt'']"

text \<open>
  \<open>DataProcessor.enrich_data\<close>; \<open>now\<close> is the text of \<open>datetime.now().isoformat()\<close>. The
  slice \<open>.str[:10]\<close> is taken of a column of texts, as \<open>make_data_clean\<close> leaves it.
\<close>

definition enrich_data :: "string \<Rightarrow> frame \<Rightarrow> string \<Rightarrow> file_type \<Rightarrow> frame" where
  "enrich_data now data filename ft =
     (let d1 = (if Name ''TransactionTime'' \<in> set (columns data)
                then set_column (Name ''Date'')
                       (\<lambda>r. str_map (take 10) (cell_at (columns data) r (Name ''TransactionTime'')))
                       data
                else set_column (Name ''Date'') (\<lambda>r. Str []) data);
          d2 = set_column (Name ''FileName'') (\<lambda>r. Str filename) d1;
          d3 = set_column (Name ''Type'') (\<lambda>r. Str (type_name ft)) d2;
          d4 = set_column (Name ''ProcessedAt'') (\<lambda>r. Str now) d3;
          order = filter (\<lambda>col. col \<in> set (columns d4)) (map Name (column_order ft))
      in select_columns order d4)"

section \<open>Column sizes\<close>

datatype sql_type = NVARCHAR nat | VARCHAR nat

fun sql_length :: "sql_type \<Rightarrow> nat" where
  "sql_length (NVARCHAR n) = n"
| "sql_length (VARCHAR n) = n"

text \<open>\<open>DataProcessor.get_database_types\<close>: the dictionary, as its list of items.\<close>

definition common_types :: "(string \<times> sql_type) list" where
  "common_types =
     [(''BankName'', NVARCHAR 100),
      (''AccountNumber'', VARCHAR 50),
      (''ShebaNumber'', VARCHAR 50),
      (''NationalCode'', VARCHAR 30),
      (''Date'', VARCHAR 10),
      (''TransactionTime'', VARCHAR 21),
      (''Status'', NVARCHAR 1000),
      (''FileName'', NVARCHAR 256),
      (''Type'', VARCHAR 20),
      (''ProcessedAt'', VARCHAR 30)]"

fun get_database_types :: "file_type \<Rightarrow> (string \<times> sql_type) list" where
  "get_database_types ValidationOk = common_types"
| "get_database_types ValidationError = common_types @ [(''ErrorCode'', VARCHAR 10)]"

definition column_limits :: "(string \<times> nat) list" where
  "column_limits =
     [(''BankName'', 100),
      (''AccountNumber'', 50),
      (''ShebaNumber'', 50),
      (''NationalCode'', 30),
      (''Date'', 10),
      (''TransactionTime'', 21),
      (''Status'', 1000),
      (''FileName'', 256),
      (''Type'', 20),
      (''ErrorCode'', 10),
      (''ProcessedAt'', 30)]"

text \<open>\<open>.astype(str).str[:limit]\<close> on one cell.\<close>

definition truncate_cell :: "cell \<Rightarrow> nat \<Rightarrow> cell \<Rightarrow> cell" where
  "truncate_cell na limit v = str_map (take limit) (astype_str na v)"

text \<open>\<open>DataProcessor.fix_column_size\<close>; the file type is not used by it.\<close>

definition fix_column_size :: "cell \<Rightarrow> frame \<Rightarrow> file_type \<Rightarrow> frame" where
  "fix_column_size na data ft =
     fold (\<lambda>(col, limit) d.
             if Name col \<in> set (columns d) then map_column (Name col) (truncate_cell na limit) d
             else d)
          column_limits data"

section \<open>The orchestrator\<close>

record config =
  ENABLE_PICKLE :: bool
  ENABLE_DB_INSERT :: bool
  DRY_RUN :: bool

text \<open>
  A file of the input directory: its name, what the CSV reader returns for it (a frame, or
  the error that \<open>load_text_files\<close> raises) and its lines.
\<close>

record source_file =
  file_name :: string
  read_csv :: "error + frame"
  readlines :: "string list"

text \<open>
  The stages of \<open>LogProcessor._process_file\<close> for one file: the error that a stage raised,
  or \<open>None\<close> when the loaded data is empty and the file is skipped, or the number of
  records. The two sinks are outside the repository: \<open>to_pickle\<close> and \<open>to_sql\<close> say
  whether writing raised.
\<close>

definition file_pipeline ::
  "config \<Rightarrow> cell \<Rightarrow> string \<Rightarrow> (frame \<Rightarrow> file_type \<Rightarrow> error option) \<Rightarrow>
   (frame \<Rightarrow> file_type \<Rightarrow> error option) \<Rightarrow> source_file \<Rightarrow> error + nat option" where
  "file_pipeline cfg na now to_pickle to_sql f =
     (case detect_file_type (file_name f) of
        Inl e \<Rightarrow> Inl e
      | Inr ft \<Rightarrow>
          (case read_csv f of
             Inl e \<Rightarrow> Inl e
           | Inr parsed \<Rightarrow>
               (let loaded = load_text_files parsed (readlines f) ft
                in if frame_empty loaded then Inr None
                   else (let cleaned = make_data_clean na loaded ft;
                             data = enrich_data now cleaned (file_name f) ft
                         in (case (if ENABLE_PICKLE cfg then to_pickle data ft else None) of
                               Some e \<Rightarrow> Inl e
                             | None \<Rightarrow>
                                 (case (if ENABLE_DB_INSERT cfg \<and> \<not> DRY_RUN cfg
                                        then to_sql (fix_column_size na data ft) ft else None) of
                                    Some e \<Rightarrow> Inl e
                                  | None \<Rightarrow> Inr (Some (length (rows data)))))))))"

record run_state =
  processed_files :: nat
  processed_records :: nat
  failed_files :: "string list"

text \<open>
  \<open>LogProcessor._process_file\<close> on the counters, for any per-file pipeline: the counters
  are written after the last stage, so a file that raises leaves them as they were.
\<close>

definition process_file ::
  "('f \<Rightarrow> error + nat option) \<Rightarrow> 'f \<Rightarrow> run_state \<Rightarrow> error + run_state" where
  "process_file pipeline f st =
     (case pipeline f of
        Inl e \<Rightarrow> Inl e
      | Inr None \<Rightarrow> Inr st
      | Inr (Some n) \<Rightarrow>
          Inr (st\<lparr>processed_files := processed_files st + 1,
                  processed_records := processed_records st + n\<rparr>))"

text \<open>
  The loop of \<open>LogProcessor.run\<close>: \<open>try: self._process_file(file_path)\<close>, and in the handler
  the path is appended to \<open>failed_files\<close> and the loop continues.
\<close>

fun process_files ::
  "('f \<Rightarrow> error + nat option) \<Rightarrow> ('f \<Rightarrow> string) \<Rightarrow> 'f list \<Rightarrow> run_state \<Rightarrow> run_state" where
  "process_files pipeline path [] st = st"
| "process_files pipeline path (f # fs) st =
     (case process_file pipeline f st of
        Inl e \<Rightarrow> process_files pipeline path fs (st\<lparr>failed_files := failed_files st @ [path f]\<rparr>)
      | Inr st' \<Rightarrow> process_files pipeline path fs st')"

text \<open>
  \<open>LogProcessor.run\<close>. \<open>extracted\<close> is what \<open>extract_wanted_files\<close> returned or raised (it
  raises when the input path does not exist or cannot be listed), \<open>move_logs\<close> whether
  archiving raised. An error of these two is logged and raised again.
\<close>

definition run ::
  "error + 'f list \<Rightarrow> ('f \<Rightarrow> error + nat option) \<Rightarrow> ('f \<Rightarrow> string) \<Rightarrow>
   ('f list \<Rightarrow> error option) \<Rightarrow> run_state \<Rightarrow> error + run_state" where
  "run extracted pipeline path move_logs st =
     (case extracted of
        Inl e \<Rightarrow> Inl e
      | Inr files \<Rightarrow>
          if files = [] then Inr st
          else (let st' = process_files pipeline path files st
                in (case move_logs files of Some e \<Rightarrow> Inl e | None \<Rightarrow> Inr st')))"

section \<open>The legacy script\<close>

text \<open>
  \<open>Main.py\<close> with \<open>funcs.py\<close> is the script that the classes above replace. Its recovery
  function is \<open>readErroneusLines\<close> above; these are the functions in which it differs.
\<close>

text \<open>\<open>funcs.detectFileType\<close>: \<open>re.findall(pattern, file)[0]\<close>.\<close>

definition detectFileType :: "string \<Rightarrow> error + string" where
  "detectFileType file = (case first_match file of None \<Rightarrow> Inl IndexError | Some t \<Rightarrow> Inr t)"

text \<open>The slices of \<open>funcs.fixColumnSize\<close> and the lengths of \<open>funcs.setDBTypes\<close>.\<close>

fun fixColumnSize_limits :: "file_type \<Rightarrow> (string \<times> nat) list" where
  "fixColumnSize_limits ValidationOk =
     [(''BankName'', 50), (''AccountNumber'', 50), (''ShebaNumber'', 50),
      (''NationalCode'', 50), (''Date'', 50), (''TransactionTime'', 50),
      (''Status'', 1000), (''FileName'', 50), (''Type'', 50)]"
| "fixColumnSize_limits ValidationError =
     [(''BankName'', 100), (''AccountNumber'', 50), (''ShebaNumber'', 50),
      (''NationalCode'', 50), (''Date'', 50), (''TransactionTime'', 50),
      (''ErrorCode'', 50), (''Status'', 1000), (''FileName'', 50), (''Type'', 50)]"

fun setDBTypes :: "file_type \<Rightarrow> (string \<times> sql_type) list" where
  "setDBTypes ValidationOk =
     [(''BankName'', NVARCHAR 50), (''AccountNumber'', VARCHAR 50),
      (''ShebaNumber'', VARCHAR 50), (''NationalCode'', VARCHAR 30),
      (''Date'', VARCHAR 10), (''TransactionTime'', VARCHAR 21),
      (''Status'', NVARCHAR 1000), (''FileName'', NVARCHAR 50), (''Type'', VARCHAR 20)]"
| "setDBTypes ValidationError =
     [(''BankName'', NVARCHAR 100), (''AccountNumber'', VARCHAR 50),
      (''ShebaNumber'', VARCHAR 50), (''NationalCode'', VARCHAR 30),
      (''Date'', VARCHAR 10), (''TransactionTime'', VARCHAR 21),
      (''ErrorCode'', VARCHAR 10), (''Status'', NVARCHAR 1000),
      (''FileName'', NVARCHAR 50), (''Type'', VARCHAR 20)]"

text \<open>
  The loop of \<open>Main.py\<close>, for any per-file pipeline: there is no handler, so the first
  error ends the run.
\<close>

fun main_loop :: "('f \<Rightarrow> error + nat option) \<Rightarrow> 'f list \<Rightarrow> error option" where
  "main_loop pipeline [] = None"
| "main_loop pipeline (f # fs) =
     (case pipeline f of Inl e \<Rightarrow> Some e | Inr n \<Rightarrow> main_loop pipeline fs)"

section \<open>Readings of the specification\<close>

text \<open>
  The specification's extraction step, in its words: the substring from the first opening
  brace to the end of the line, with the tab and carriage return pairs removed.
\<close>

definition spec_marker_text :: "string \<Rightarrow> string" where
  "spec_marker_text line =
     remove_tab_cr (dropWhile (\<lambda>c. c \<noteq> LBRACE) (takeWhile (\<lambda>c. c \<noteq> LF) line))"

text \<open>
  The specification's prefix rule, in its words: what follows the first colon, or the
  whole value when it has no colon, then trimmed.
\<close>

definition spec_strip_label :: "string \<Rightarrow> string" where
  "spec_strip_label s =
     strip (case dropWhile (\<lambda>c. c \<noteq> COLON) s of [] \<Rightarrow> s | c # rest \<Rightarrow> rest)"

text \<open>
  \<open>FILE_PATTERN\<close> read as a regular expression: at the start of \<open>s\<close> stands the tag, then
  a run of digits, then \<open>.txt\<close>; and a name matches when this holds of some rest of it
  for one of the two tags.
\<close>

definition pattern_at :: "string \<Rightarrow> string \<Rightarrow> bool" where
  "pattern_at tag s = (\<exists>ds post. s = tag @ ds @ ''.txt'' @ post \<and> list_all is_digit ds)"

definition file_pattern_matches :: "string \<Rightarrow> bool" where
  "file_pattern_matches name =
     (\<exists>pre tag rest. name = pre @ rest
        \<and> (tag = ''ValidationError'' \<or> tag = ''ValidationOk'') \<and> pattern_at tag rest)"

section \<open>Properties of the recovery\<close>

lemma split_on_not_Nil: "split_on d s \<noteq> []"
  by (induction s) (auto split: list.splits)

lemma split_on_no_sep: "d \<notin> set s \<Longrightarrow> split_on d s = [s]"
  by (induction s) auto

lemma split_on_append_sep:
  "d \<notin> set a \<Longrightarrow> split_on d (a @ d # b) = a # split_on d b"
  by (induction a) auto

lemma split_on_covers:
  "c \<in> set s \<Longrightarrow> c \<noteq> d \<Longrightarrow> \<exists>f \<in> set (split_on d s). c \<in> set f"
proof (induction s)
  case Nil
  then show ?case by simp
next
  case (Cons a s)
  obtain f fs where sp: "split_on d s = f # fs"
    using split_on_not_Nil [of d s] by (cases "split_on d s") auto
  show ?case
  proof (cases "a = d")
    case True
    with Cons show ?thesis by auto
  next
    case False
    with Cons sp show ?thesis by auto
  qed
qed

lemma findall_brace_not_Nil: "has_brace line \<Longrightarrow> findall_brace line \<noteq> []"
proof -
  assume "has_brace line"
  then have "LBRACE \<in> set line" by (simp add: has_brace_def)
  then obtain f where "f \<in> set (split_on LF line)" "LBRACE \<in> set f"
    using split_on_covers [of LBRACE line LF] by auto
  then show ?thesis
    by (auto simp: findall_brace_def has_brace_def filter_empty_conv)
qed

lemma json_line_total: "has_brace line \<Longrightarrow> \<exists>t. json_line line = Inr t"
  using findall_brace_not_Nil [of line]
  by (cases "findall_brace line") (auto simp: json_line_def)

lemma collect_total:
  "(\<And>x. x \<in> set xs \<Longrightarrow> \<exists>y. f x = Inr y) \<Longrightarrow> collect f xs = Inr (map (\<lambda>x. projr (f x)) xs)"
proof (induction xs)
  case Nil
  then show ?case by simp
next
  case (Cons a xs)
  obtain y where "f a = Inr y" using Cons.prems [of a] by auto
  moreover have "collect f xs = Inr (map (\<lambda>x. projr (f x)) xs)"
    using Cons by simp
  ultimately show ?case by simp
qed

lemma json_lines_total:
  "json_lines lines = Inr (map (\<lambda>l. projr (json_line l)) (filter has_brace lines))"
  unfolding json_lines_def
  by (rule collect_total) (auto dest: json_line_total)

lemma json_line_whole:
  "has_brace body \<Longrightarrow> LF \<notin> set body \<Longrightarrow> json_line body = Inr (remove_tab_cr body)"
  by (simp add: json_line_def findall_brace_def split_on_no_sep)

lemma json_line_terminated:
  "has_brace body \<Longrightarrow> LF \<notin> set body \<Longrightarrow> json_line (body @ [LF]) = Inr (remove_tab_cr body)"
  by (simp add: json_line_def findall_brace_def split_on_append_sep has_brace_def)

lemma remove_tab_cr_id: "\<not> has_tab_cr s \<Longrightarrow> remove_tab_cr s = s"
  by (induction s rule: remove_tab_cr.induct) auto

lemma remove_tab_cr_append:
  "remove_tab_cr (xs @ TAB # CR # ys) = remove_tab_cr xs @ remove_tab_cr ys"
  by (induction xs rule: remove_tab_cr.induct) auto


lemma correct_line_length: "correct_line l = Some r \<Longrightarrow> length r = 7"
  by (auto simp: correct_line_def split: if_splits)

lemma lines_corrected_length: "r \<in> set (lines_corrected ls) \<Longrightarrow> length r = 7"
  by (auto simp: lines_corrected_def List.map_filter_def correct_line_length)

lemma lines_corrected_member:
  "l \<in> set ls \<Longrightarrow> correct_line l = Some r \<Longrightarrow> r \<in> set (lines_corrected ls)"
  by (force simp: lines_corrected_def List.map_filter_def)

lemma fold_max_const:
  "xs \<noteq> [] \<Longrightarrow> \<forall>x \<in> set xs. x = k \<Longrightarrow> fold max xs (a::nat) = max a k"
proof (induction xs arbitrary: a)
  case Nil
  then show ?case by simp
next
  case (Cons x xs)
  then show ?case by (cases "xs = []") auto
qed

lemma DataFrame_seven:
  assumes "ls \<noteq> []" and "\<forall>l \<in> set ls. length l = 7"
  shows "DataFrame ls = \<lparr>columns = map Pos [0..<7], rows = map (map Str) ls\<rparr>"
proof -
  have "fold max (map length ls) 0 = 7"
    using assms fold_max_const [of "map length ls" 7 0] by simp
  then show ?thesis using assms by (simp add: DataFrame_def)
qed

lemma upt_7: "[0..<7] = [0, 1, 2, 3, 4, 5, 6::nat]"
  by (simp add: upt_rec)

lemma rename_seven:
  "rename_columns \<lparr>columns = map Pos [0..<7], rows = rs\<rparr> ValidationError
   = \<lparr>columns = map Name (expected_cols ValidationError), rows = rs\<rparr>"
  by (simp add: rename_columns_def upt_7)

lemma read_erroneous_lines_frame:
  assumes "readErroneusLines lines = Inr rs" and "rs \<noteq> []"
  shows "read_erroneous_lines lines
         = \<lparr>columns = map Name (expected_cols ValidationError), rows = map (map Str) rs\<rparr>"
proof -
  obtain js where js: "json_lines lines = Inr js"
    using json_lines_total by blast
  with assms have rs: "rs = lines_corrected (map (split_on TAB) js)"
    by (simp add: readErroneusLines_def)
  with assms have "js \<noteq> []"
    by (auto simp: lines_corrected_def List.map_filter_simps)
  moreover have "\<forall>l \<in> set rs. length l = 7"
    using rs lines_corrected_length by blast
  ultimately show ?thesis
    using js rs assms(2) by (simp add: read_erroneous_lines_def DataFrame_seven rename_seven)
qed

text \<open>
  Claim C1. A selected line whose cleaned text splits on the tab into exactly ten fields is
  recovered as a record of seven fields: the fields 0 to 5 as they are, and as field 6 the
  fields 6, 7, 8 and 9 joined in this order with nothing between them. The record is in
  the list that \<open>readErroneusLines\<close> returns and in the frame that
  \<open>_read_erroneous_lines\<close> builds from it.
\<close>

theorem ten_fields_are_merged:
  assumes "line \<in> set lines" and "has_brace line" and "json_line line = Inr t"
    and "split_on TAB t = fs" and "length fs = 10"
  shows "\<exists>rs. readErroneusLines lines = Inr rs
           \<and> take 6 fs @ [fs ! 6 @ fs ! 7 @ fs ! 8 @ fs ! 9] \<in> set rs
           \<and> read_erroneous_lines lines
             = \<lparr>columns = map Name (expected_cols ValidationError), rows = map (map Str) rs\<rparr>
           \<and> readErroneusLines [line] = Inr [take 6 fs @ [fs ! 6 @ fs ! 7 @ fs ! 8 @ fs ! 9]]
           \<and> length (take 6 fs @ [fs ! 6 @ fs ! 7 @ fs ! 8 @ fs ! 9]) = 7
           \<and> (\<forall>i < 6. (take 6 fs @ [fs ! 6 @ fs ! 7 @ fs ! 8 @ fs ! 9]) ! i = fs ! i)
           \<and> (take 6 fs @ [fs ! 6 @ fs ! 7 @ fs ! 8 @ fs ! 9]) ! 6
             = fs ! 6 @ fs ! 7 @ fs ! 8 @ fs ! 9"
proof -
  let ?r = "take 6 fs @ [fs ! 6 @ fs ! 7 @ fs ! 8 @ fs ! 9]"
  let ?js = "map (\<lambda>l. projr (json_line l)) (filter has_brace lines)"
  let ?rs = "lines_corrected (map (split_on TAB) ?js)"
  have cl: "correct_line fs = Some ?r"
    using assms(5) by (simp add: correct_line_def)
  have all: "readErroneusLines lines = Inr ?rs"
    by (simp add: readErroneusLines_def json_lines_total)
  have "t \<in> set ?js"
    using assms(1,2,3) by force
  then have "fs \<in> set (map (split_on TAB) ?js)"
    using assms(4) by auto
  then have mem: "?r \<in> set ?rs"
    using cl by (rule lines_corrected_member)
  then have ne: "?rs \<noteq> []" by auto
  have one: "readErroneusLines [line] = Inr [?r]"
    using assms(2,3,4) cl
    by (simp add: readErroneusLines_def json_lines_total lines_corrected_def List.map_filter_simps)
  have len: "length ?r = 7" using assms(5) by simp
  have pre: "\<forall>i < 6. ?r ! i = fs ! i"
    using assms(5) by (simp add: nth_append)
  have last: "?r ! 6 = fs ! 6 @ fs ! 7 @ fs ! 8 @ fs ! 9"
    using assms(5) by (simp add: nth_append)
  show ?thesis
    using all mem read_erroneous_lines_frame [OF all ne] one len pre last by blast
qed

theorem ten_fields_are_merged_witness:
  "readErroneusLines
     [''A'' @ [TAB] @ ''B'' @ [TAB] @ ''C'' @ [TAB] @ ''D'' @ [TAB] @ ''E'' @ [TAB] @ ''F''
      @ [TAB] @ ''{1'' @ [TAB] @ ''2'' @ [TAB] @ ''}'' @ [TAB] @ [LF]]
   = Inr [[''A'', ''B'', ''C'', ''D'', ''E'', ''F'', ''{12}'']]"
proof -
  let ?line = "''A'' @ [TAB] @ ''B'' @ [TAB] @ ''C'' @ [TAB] @ ''D'' @ [TAB] @ ''E'' @ [TAB] @ ''F''
      @ [TAB] @ ''{1'' @ [TAB] @ ''2'' @ [TAB] @ ''}'' @ [TAB] @ [LF]"
  let ?t = "''A'' @ [TAB] @ ''B'' @ [TAB] @ ''C'' @ [TAB] @ ''D'' @ [TAB] @ ''E'' @ [TAB] @ ''F''
      @ [TAB] @ ''{1'' @ [TAB] @ ''2'' @ [TAB] @ ''}'' @ [TAB]"
  let ?fs = "[''A'', ''B'', ''C'', ''D'', ''E'', ''F'', ''{1'', ''2'', ''}'', []]"
  have a: "?line \<in> set [?line]" by simp
  have b: "has_brace ?line" by (simp add: has_brace_def)
  have c: "json_line ?line = Inr ?t"
    by (simp add: json_line_def findall_brace_def has_brace_def)
  have d: "split_on TAB ?t = ?fs" by simp
  have e: "length ?fs = 10" by simp
  show ?thesis
    using ten_fields_are_merged [OF a b c d e] by (elim exE conjE) simp
qed

text \<open>
  Claim C2, as the specification states it: the text handed on to the split would be the
  substring from the first opening brace. The code hands on the whole line: for the line
  \<open>Bank<TAB>{x}<LF>\<close> the text is \<open>Bank<TAB>{x}\<close> and not \<open>{x}\<close>.
\<close>

theorem marker_text_counterexample:
  "json_line (''Bank'' @ [TAB] @ ''{x}'' @ [LF]) = Inr (''Bank'' @ [TAB] @ ''{x}'')
   \<and> spec_marker_text (''Bank'' @ [TAB] @ ''{x}'' @ [LF]) = ''{x}''
   \<and> json_line (''Bank'' @ [TAB] @ ''{x}'' @ [LF])
       \<noteq> Inr (spec_marker_text (''Bank'' @ [TAB] @ ''{x}'' @ [LF]))"
  by (simp add: json_line_def findall_brace_def has_brace_def spec_marker_text_def)

text \<open>
  Claim C2, amended. For a line that has an opening brace, given as its characters up to
  the line feed (\<open>body\<close>, with or without the line feed after it), the text handed on
  to the split is the whole of \<open>body\<close>, nothing before the brace discarded, with the pairs
  of a tab and a carriage return deleted: \<open>body\<close> itself when it has no such pair, and
  deletion goes through each pair.
\<close>

theorem recovery_text_is_whole_line:
  assumes "has_brace body" and "LF \<notin> set body"
  shows "json_line (body @ [LF]) = Inr (remove_tab_cr body)
       \<and> json_line body = Inr (remove_tab_cr body)
       \<and> json_lines [body @ [LF]] = Inr [remove_tab_cr body]
       \<and> (\<not> has_tab_cr body \<longrightarrow> remove_tab_cr body = body)
       \<and> (\<forall>xs ys. body = xs @ TAB # CR # ys
            \<longrightarrow> remove_tab_cr body = remove_tab_cr xs @ remove_tab_cr ys)"
proof -
  have "has_brace (body @ [LF])"
    using assms(1) by (simp add: has_brace_def)
  then have "json_lines [body @ [LF]] = Inr [remove_tab_cr body]"
    using assms by (simp add: json_lines_def json_line_terminated)
  then show ?thesis
    using assms
    by (simp add: json_line_terminated json_line_whole remove_tab_cr_id remove_tab_cr_append)
qed

theorem recovery_text_is_whole_line_witness:
  "json_line (''F'' @ [TAB] @ ''{x}'' @ [TAB, CR, LF]) = Inr (''F'' @ [TAB] @ ''{x}'')"
proof -
  have a: "has_brace (''F'' @ [TAB] @ ''{x}'' @ [TAB, CR])" by (simp add: has_brace_def)
  have b: "LF \<notin> set (''F'' @ [TAB] @ ''{x}'' @ [TAB, CR])" by simp
  show ?thesis
    using recovery_text_is_whole_line [OF a b] by simp
qed

section \<open>Properties of the file classifier\<close>

lemma match_lit_Some: "match_lit lit s = Some r \<longleftrightarrow> s = lit @ r"
  by (induction lit s rule: match_lit.induct) auto

lemma pattern_atI:
  "s = tag @ ds @ ''.txt'' @ post \<Longrightarrow> list_all is_digit ds \<Longrightarrow> pattern_at tag s"
  unfolding pattern_at_def by (intro exI conjI)

lemma dot_no_digit: "\<not> is_digit (CHR ''.'')"
  by (simp add: is_digit_def)

lemma dropWhile_digits:
  "list_all is_digit ds \<Longrightarrow> dropWhile is_digit (ds @ ''.txt'' @ post) = ''.txt'' @ post"
  using dot_no_digit by (simp add: dropWhile_append2 list_all_iff)

lemma match_alt_Some_D:
  assumes "match_alt tag s = Some t"
  shows "t = tag \<and> pattern_at tag s"
proof -
  from assms obtain r r' where r: "match_lit tag s = Some r"
    and r': "match_lit ''.txt'' (dropWhile is_digit r) = Some r'" and t: "t = tag"
    unfolding match_alt_def by (simp split: option.splits)
  have s: "s = tag @ r" using r by (simp only: match_lit_Some)
  have dw: "dropWhile is_digit r = ''.txt'' @ r'"
    using r' by (simp only: match_lit_Some)
  have "s = tag @ takeWhile is_digit r @ dropWhile is_digit r"
    by (simp only: s takeWhile_dropWhile_id)
  then have "s = tag @ takeWhile is_digit r @ ''.txt'' @ r'"
    by (simp only: dw)
  moreover have "list_all is_digit (takeWhile is_digit r)"
    by (auto simp: list_all_iff dest: set_takeWhileD)
  ultimately have "pattern_at tag s"
    by (rule pattern_atI)
  then show ?thesis
    using t by simp
qed

lemma match_alt_Some_I:
  assumes "pattern_at tag s"
  shows "match_alt tag s = Some tag"
proof -
  from assms obtain ds post where s: "s = tag @ ds @ ''.txt'' @ post" and d: "list_all is_digit ds"
    unfolding pattern_at_def by blast
  have "match_lit tag s = Some (ds @ ''.txt'' @ post)"
    by (simp only: match_lit_Some s)
  moreover have "match_lit ''.txt'' (dropWhile is_digit (ds @ ''.txt'' @ post)) = Some post"
    by (simp only: dropWhile_digits [OF d] match_lit_Some)
  ultimately show ?thesis
    by (simp add: match_alt_def)
qed

lemma match_alt_Some: "match_alt tag s = Some t \<longleftrightarrow> t = tag \<and> pattern_at tag s"
  using match_alt_Some_D match_alt_Some_I by blast

lemma match_alt_None: "match_alt tag s = None \<longleftrightarrow> \<not> pattern_at tag s"
  using match_alt_Some [of tag s] by (cases "match_alt tag s") auto

lemma pattern_at_prefix: "pattern_at tag s \<Longrightarrow> \<exists>r. s = tag @ r"
  unfolding pattern_at_def by auto

lemma tags_no_common_extension: "''ValidationOk'' @ y \<noteq> ''ValidationError'' @ x"
  by simp

lemma pattern_at_exclusive:
  assumes "pattern_at ''ValidationError'' s"
  shows "\<not> pattern_at ''ValidationOk'' s"
proof
  assume "pattern_at ''ValidationOk'' s"
  then obtain y where y: "s = ''ValidationOk'' @ y"
    using pattern_at_prefix by blast
  obtain x where x: "s = ''ValidationError'' @ x"
    using assms pattern_at_prefix by blast
  show False
    using tags_no_common_extension [of y x] x y by metis
qed

lemma alternatives_Some:
  assumes "pattern_at a s \<Longrightarrow> \<not> pattern_at b s"
  shows "(case match_alt a s of Some t \<Rightarrow> Some t | None \<Rightarrow> match_alt b s) = Some t
         \<longleftrightarrow> (t = a \<or> t = b) \<and> pattern_at t s"
proof (cases "match_alt a s")
  case None
  then have "\<not> pattern_at a s" using match_alt_None [of a s] by blast
  then show ?thesis
    using None match_alt_Some [of b s t] by auto
next
  case (Some t')
  then have "t' = a" and "pattern_at a s"
    using match_alt_Some [of a s t'] by simp_all
  then show ?thesis
    using Some assms by auto
qed

lemma match_here_Some:
  "match_here s = Some t \<longleftrightarrow> (t = ''ValidationError'' \<or> t = ''ValidationOk'') \<and> pattern_at t s"
  unfolding match_here_def
  by (rule alternatives_Some) (rule pattern_at_exclusive)

lemma match_here_None:
  "match_here s = None \<longleftrightarrow> \<not> pattern_at ''ValidationError'' s \<and> \<not> pattern_at ''ValidationOk'' s"
proof
  assume n: "match_here s = None"
  have "\<not> pattern_at ''ValidationError'' s"
    using n match_here_Some [of s "''ValidationError''"] by force
  moreover have "\<not> pattern_at ''ValidationOk'' s"
    using n match_here_Some [of s "''ValidationOk''"] by force
  ultimately show "\<not> pattern_at ''ValidationError'' s \<and> \<not> pattern_at ''ValidationOk'' s" ..
next
  assume a: "\<not> pattern_at ''ValidationError'' s \<and> \<not> pattern_at ''ValidationOk'' s"
  show "match_here s = None"
  proof (cases "match_here s")
    case None
    then show ?thesis .
  next
    case (Some t)
    then have "(t = ''ValidationError'' \<or> t = ''ValidationOk'') \<and> pattern_at t s"
      by (simp only: match_here_Some)
    with a show ?thesis by blast
  qed
qed

lemma first_match_Some:
  "first_match s = Some t \<longleftrightarrow>
     (\<exists>pre rest. s = pre @ rest \<and> match_here rest = Some t
        \<and> (\<forall>k < length pre. match_here (drop k s) = None))"
proof (induction s)
  case Nil
  then show ?case by auto
next
  case (Cons c cs)
  show ?case
  proof (cases "match_here (c # cs)")
    case (Some t')
    have "(\<exists>pre rest. c # cs = pre @ rest \<and> match_here rest = Some t
        \<and> (\<forall>k < length pre. match_here (drop k (c # cs)) = None)) \<longleftrightarrow> t = t'"
    proof
      assume "\<exists>pre rest. c # cs = pre @ rest \<and> match_here rest = Some t
        \<and> (\<forall>k < length pre. match_here (drop k (c # cs)) = None)"
      then obtain pre rest where p: "c # cs = pre @ rest" "match_here rest = Some t"
        "\<forall>k < length pre. match_here (drop k (c # cs)) = None" by blast
      have "pre = []"
      proof (rule ccontr)
        assume "pre \<noteq> []"
        then have "0 < length pre" by simp
        with p(3) have "match_here (drop 0 (c # cs)) = None" by blast
        with Some show False by simp
      qed
      with p Some show "t = t'" by simp
    next
      assume "t = t'"
      with Some have "c # cs = [] @ (c # cs) \<and> match_here (c # cs) = Some t
        \<and> (\<forall>k < length ([]::string). match_here (drop k (c # cs)) = None)" by simp
      then show "\<exists>pre rest. c # cs = pre @ rest \<and> match_here rest = Some t
        \<and> (\<forall>k < length pre. match_here (drop k (c # cs)) = None)" by blast
    qed
    with Some show ?thesis by auto
  next
    case None
    have "(\<exists>pre rest. c # cs = pre @ rest \<and> match_here rest = Some t
        \<and> (\<forall>k < length pre. match_here (drop k (c # cs)) = None))
      \<longleftrightarrow> (\<exists>pre rest. cs = pre @ rest \<and> match_here rest = Some t
        \<and> (\<forall>k < length pre. match_here (drop k cs) = None))"
    proof
      assume "\<exists>pre rest. c # cs = pre @ rest \<and> match_here rest = Some t
        \<and> (\<forall>k < length pre. match_here (drop k (c # cs)) = None)"
      then obtain pre rest where p: "c # cs = pre @ rest" "match_here rest = Some t"
        "\<forall>k < length pre. match_here (drop k (c # cs)) = None" by blast
      with None obtain pre' where pre: "pre = c # pre'" by (cases pre) auto
      have "\<forall>k < length pre'. match_here (drop k cs) = None"
      proof (intro allI impI)
        fix k assume "k < length pre'"
        then have "Suc k < length pre" using pre by simp
        with p(3) have "match_here (drop (Suc k) (c # cs)) = None" by blast
        then show "match_here (drop k cs) = None" by simp
      qed
      moreover have "cs = pre' @ rest" using p(1) pre by simp
      ultimately show "\<exists>pre rest. cs = pre @ rest \<and> match_here rest = Some t
        \<and> (\<forall>k < length pre. match_here (drop k cs) = None)"
        using p(2) by blast
    next
      assume "\<exists>pre rest. cs = pre @ rest \<and> match_here rest = Some t
        \<and> (\<forall>k < length pre. match_here (drop k cs) = None)"
      then obtain pre rest where p: "cs = pre @ rest" "match_here rest = Some t"
        "\<forall>k < length pre. match_here (drop k cs) = None" by blast
      have "\<forall>k < length (c # pre). match_here (drop k (c # cs)) = None"
      proof (intro allI impI)
        fix k assume k: "k < length (c # pre)"
        show "match_here (drop k (c # cs)) = None"
        proof (cases k)
          case 0
          with None show ?thesis by simp
        next
          case (Suc j)
          with k p(3) show ?thesis by simp
        qed
      qed
      with p have "c # cs = (c # pre) @ rest \<and> match_here rest = Some t
        \<and> (\<forall>k < length (c # pre). match_here (drop k (c # cs)) = None)" by simp
      then show "\<exists>pre rest. c # cs = pre @ rest \<and> match_here rest = Some t
        \<and> (\<forall>k < length pre. match_here (drop k (c # cs)) = None)" by blast
    qed
    with None Cons.IH show ?thesis by simp
  qed
qed

lemma first_match_None:
  "first_match s = None \<longleftrightarrow> (\<forall>k \<le> length s. match_here (drop k s) = None)"
proof (induction s)
  case Nil
  then show ?case by simp
next
  case (Cons c cs)
  have "(\<forall>k \<le> length (c # cs). match_here (drop k (c # cs)) = None)
     \<longleftrightarrow> match_here (c # cs) = None \<and> (\<forall>k \<le> length cs. match_here (drop k cs) = None)"
  proof
    assume a: "\<forall>k \<le> length (c # cs). match_here (drop k (c # cs)) = None"
    then have "match_here (drop 0 (c # cs)) = None" by blast
    moreover have "\<forall>k \<le> length cs. match_here (drop k cs) = None"
    proof (intro allI impI)
      fix k assume "k \<le> length cs"
      then have "Suc k \<le> length (c # cs)" by simp
      with a have "match_here (drop (Suc k) (c # cs)) = None" by blast
      then show "match_here (drop k cs) = None" by simp
    qed
    ultimately show "match_here (c # cs) = None \<and> (\<forall>k \<le> length cs. match_here (drop k cs) = None)"
      by simp
  next
    assume a: "match_here (c # cs) = None \<and> (\<forall>k \<le> length cs. match_here (drop k cs) = None)"
    show "\<forall>k \<le> length (c # cs). match_here (drop k (c # cs)) = None"
    proof (intro allI impI)
      fix k assume k: "k \<le> length (c # cs)"
      show "match_here (drop k (c # cs)) = None"
        using a k by (cases k) auto
    qed
  qed
  with Cons show ?case by (auto split: option.splits)
qed

lemma first_match_None_iff: "first_match name = None \<longleftrightarrow> \<not> file_pattern_matches name"
proof
  assume n: "first_match name = None"
  show "\<not> file_pattern_matches name"
  proof
    assume "file_pattern_matches name"
    then obtain pre tag rest where p: "name = pre @ rest"
      "tag = ''ValidationError'' \<or> tag = ''ValidationOk''" "pattern_at tag rest"
      unfolding file_pattern_matches_def by blast
    then have "match_here rest = Some tag" by (simp only: match_here_Some)
    moreover have "drop (length pre) name = rest" using p(1) by simp
    moreover have "length pre \<le> length name" using p(1) by simp
    ultimately show False using n unfolding first_match_None by fastforce
  qed
next
  assume m: "\<not> file_pattern_matches name"
  have "\<forall>k \<le> length name. match_here (drop k name) = None"
  proof (intro allI impI)
    fix k assume "k \<le> length name"
    show "match_here (drop k name) = None"
    proof (cases "match_here (drop k name)")
      case None
      then show ?thesis .
    next
      case (Some t)
      then have "(t = ''ValidationError'' \<or> t = ''ValidationOk'') \<and> pattern_at t (drop k name)"
        by (simp only: match_here_Some)
      moreover have "name = take k name @ drop k name" by simp
      ultimately have "file_pattern_matches name"
        unfolding file_pattern_matches_def by blast
      with m show ?thesis by simp
    qed
  qed
  then show "first_match name = None" by (simp only: first_match_None)
qed

lemma file_type_of_type_name: "file_type_of t = Some ft \<longleftrightarrow> t = type_name ft"
  by (cases ft) (auto simp: file_type_of_def VALIDATION_OK_def VALIDATION_ERROR_def)

lemma file_type_of_tag:
  "t = ''ValidationError'' \<or> t = ''ValidationOk'' \<Longrightarrow> \<exists>ft. file_type_of t = Some ft"
  by (auto simp: file_type_of_def VALIDATION_OK_def VALIDATION_ERROR_def)

lemma detect_file_type_Inr:
  "detect_file_type name = Inr ft \<longleftrightarrow> first_match name = Some (type_name ft)"
proof (cases "first_match name")
  case None
  then show ?thesis by (simp add: detect_file_type_def)
next
  case (Some t)
  then have "t = ''ValidationError'' \<or> t = ''ValidationOk''"
    unfolding first_match_Some match_here_Some by blast
  then obtain ft' where "file_type_of t = Some ft'"
    using file_type_of_tag by blast
  with Some show ?thesis
    using file_type_of_type_name [of t ft]
    by (auto simp: detect_file_type_def)
qed

text \<open>
  Claim C8. The classifier returns a file type exactly when the file name matches
  \<open>(ValidationError|ValidationOk)\d*\.txt\<close> somewhere in it, the type being the tag of
  the leftmost match, and for a name without a match it fails with the error
  \<open>FileProcessingError\<close> (the specification's \<open>UnrecognizedFileType\<close>).
\<close>

theorem detect_file_type_by_pattern:
  "(detect_file_type name = Inr ft
      \<longleftrightarrow> (\<exists>pre rest. name = pre @ rest \<and> pattern_at (type_name ft) rest
             \<and> (\<forall>k < length pre. \<not> pattern_at ''ValidationError'' (drop k name)
                               \<and> \<not> pattern_at ''ValidationOk'' (drop k name))))
   \<and> ((\<exists>t. detect_file_type name = Inr t) \<longleftrightarrow> file_pattern_matches name)
   \<and> (\<not> file_pattern_matches name
        \<longrightarrow> detect_file_type name
            = Inl (FileProcessingError (''Cannot detect file type for: '' @ name)))"
proof (intro conjI)
  have tn: "type_name ft = ''ValidationError'' \<or> type_name ft = ''ValidationOk''"
    by (cases ft) (simp_all add: VALIDATION_OK_def VALIDATION_ERROR_def)
  show "detect_file_type name = Inr ft
      \<longleftrightarrow> (\<exists>pre rest. name = pre @ rest \<and> pattern_at (type_name ft) rest
             \<and> (\<forall>k < length pre. \<not> pattern_at ''ValidationError'' (drop k name)
                               \<and> \<not> pattern_at ''ValidationOk'' (drop k name)))"
    unfolding detect_file_type_Inr first_match_Some match_here_Some match_here_None
    using tn by blast
  have "(\<exists>t. detect_file_type name = Inr t) \<longleftrightarrow> first_match name \<noteq> None"
  proof (cases "first_match name")
    case None
    then show ?thesis by (simp add: detect_file_type_def)
  next
    case (Some t)
    then have "t = ''ValidationError'' \<or> t = ''ValidationOk''"
      unfolding first_match_Some match_here_Some by blast
    then obtain ft' where "file_type_of t = Some ft'"
      using file_type_of_tag by blast
    with Some show ?thesis by (simp add: detect_file_type_def)
  qed
  then show "(\<exists>t. detect_file_type name = Inr t) \<longleftrightarrow> file_pattern_matches name"
    by (simp add: first_match_None_iff)
  show "\<not> file_pattern_matches name
        \<longrightarrow> detect_file_type name
            = Inl (FileProcessingError (''Cannot detect file type for: '' @ name))"
    by (simp add: first_match_None_iff [symmetric] detect_file_type_def)
qed

theorem detect_file_type_by_pattern_witness:
  "detect_file_type ''ValidationError12.txt'' = Inr ValidationError
   \<and> detect_file_type ''report.txt''
       = Inl (FileProcessingError ''Cannot detect file type for: report.txt'')"
proof -
  have p: "pattern_at (type_name ValidationError) ''ValidationError12.txt''"
    by (rule pattern_atI [where ds = "''12''" and post = "[]"])
       (simp_all add: VALIDATION_ERROR_def is_digit_def)
  have "\<exists>pre rest. ''ValidationError12.txt'' = pre @ rest
          \<and> pattern_at (type_name ValidationError) rest
          \<and> (\<forall>k < length pre. \<not> pattern_at ''ValidationError'' (drop k ''ValidationError12.txt'')
                             \<and> \<not> pattern_at ''ValidationOk'' (drop k ''ValidationError12.txt''))"
    using p by (intro exI [of _ "[]"] exI [of _ "''ValidationError12.txt''"]) simp
  then have a: "detect_file_type ''ValidationError12.txt'' = Inr ValidationError"
    using detect_file_type_by_pattern [of "''ValidationError12.txt''" ValidationError] by blast
  have "\<not> file_pattern_matches ''report.txt''"
    unfolding first_match_None_iff [symmetric]
    by (simp add: match_here_def match_alt_def)
  then have b: "detect_file_type ''report.txt''
       = Inl (FileProcessingError ''Cannot detect file type for: report.txt'')"
    using detect_file_type_by_pattern [of "''report.txt''" ValidationOk] by simp
  show ?thesis using a b by simp
qed

section \<open>Properties of the orchestrator\<close>

lemma process_file_cases:
  "process_file pipeline f st =
     (case pipeline f of
        Inl e \<Rightarrow> Inl e
      | Inr None \<Rightarrow> Inr st
      | Inr (Some n) \<Rightarrow>
          Inr (st\<lparr>processed_files := processed_files st + 1,
                  processed_records := processed_records st + n\<rparr>))"
  by (simp add: process_file_def)

lemma process_files_failed:
  "failed_files (process_files pipeline path files st)
   = failed_files st @ map path (filter (\<lambda>f. isl (pipeline f)) files)"
  by (induction files arbitrary: st)
     (auto simp: process_file_def split: sum.splits option.splits)

lemma process_files_count:
  "processed_files (process_files pipeline path files st)
   = processed_files st + length (filter (\<lambda>f. \<exists>n. pipeline f = Inr (Some n)) files)"
  by (induction files arbitrary: st)
     (auto simp: process_file_def split: sum.splits option.splits)

lemma process_files_records:
  "processed_records (process_files pipeline path files st)
   = processed_records st
     + sum_list (map (\<lambda>f. case pipeline f of Inr (Some n) \<Rightarrow> n | _ \<Rightarrow> 0) files)"
  by (induction files arbitrary: st)
     (auto simp: process_file_def split: sum.splits option.splits)

lemma process_files_append:
  "process_files pipeline path (fs @ gs) st
   = process_files pipeline path gs (process_files pipeline path fs st)"
  by (induction fs arbitrary: st) (auto split: sum.splits)

text \<open>
  Claim C7. Whatever the per-file pipeline raises for a file (an unrecognised type, a parse
  failure, a failure while cleaning, enriching or writing), the loop of \<open>LogProcessor.run\<close>
  records the file in \<open>failed_files\<close> and goes on with the remaining files: every file of
  the batch is processed, the failed ones are exactly those recorded, and the others are
  counted. The run as a whole fails only when the input directory cannot be read, when
  \<open>extract_wanted_files\<close> raises, or when archiving raises.
\<close>

theorem file_errors_do_not_abort_the_batch:
  "failed_files (process_files pipeline path files st)
     = failed_files st @ map path (filter (\<lambda>f. isl (pipeline f)) files)
   \<and> processed_files (process_files pipeline path files st)
     = processed_files st + length (filter (\<lambda>f. \<exists>n. pipeline f = Inr (Some n)) files)
   \<and> processed_records (process_files pipeline path files st)
     = processed_records st
       + sum_list (map (\<lambda>f. case pipeline f of Inr (Some n) \<Rightarrow> n | _ \<Rightarrow> 0) files)
   \<and> (pipeline f = Inl e \<longrightarrow>
        process_files pipeline path (before @ f # remaining) st
        = process_files pipeline path remaining
            ((process_files pipeline path before st)
               \<lparr>failed_files := failed_files (process_files pipeline path before st) @ [path f]\<rparr>))
   \<and> (run (Inr files) pipeline path move_logs st = Inl e
        \<longrightarrow> files \<noteq> [] \<and> move_logs files = Some e)
   \<and> (run (Inl e) pipeline path move_logs st = Inl e)
   \<and> (move_logs files = None
        \<longrightarrow> run (Inr files) pipeline path move_logs st
            = Inr (process_files pipeline path files st))"
proof -
  have cont: "pipeline f = Inl e \<longrightarrow>
        process_files pipeline path (before @ f # remaining) st
        = process_files pipeline path remaining
            ((process_files pipeline path before st)
               \<lparr>failed_files := failed_files (process_files pipeline path before st) @ [path f]\<rparr>)"
    by (simp add: process_files_append process_file_def)
  have abort: "run (Inr files) pipeline path move_logs st = Inl e
        \<longrightarrow> files \<noteq> [] \<and> move_logs files = Some e"
    by (auto simp: run_def Let_def split: if_splits option.splits)
  have ok: "move_logs files = None
        \<longrightarrow> run (Inr files) pipeline path move_logs st
            = Inr (process_files pipeline path files st)"
    by (cases files) (auto simp: run_def Let_def)
  show ?thesis
    using process_files_failed [of pipeline path files st]
      process_files_count [of pipeline path files st]
      process_files_records [of pipeline path files st] cont abort ok
    by (simp add: run_def)
qed

theorem file_errors_do_not_abort_the_batch_witness:
  "run (Inr [''a.txt'', ''ValidationOk1.txt'', ''ValidationError2.txt''])
       (\<lambda>f. if f = ''a.txt'' then Inl (FileProcessingError ''Cannot detect file type for: a.txt'')
            else Inr (Some 2))
       (\<lambda>f. f) (\<lambda>fs. None)
       \<lparr>processed_files = 0, processed_records = 0, failed_files = []\<rparr>
   = Inr \<lparr>processed_files = 2, processed_records = 4, failed_files = [''a.txt'']\<rparr>"
proof -
  let ?p = "\<lambda>f. if f = ''a.txt'' then Inl (FileProcessingError ''Cannot detect file type for: a.txt'')
            else Inr (Some (2::nat))"
  let ?fs = "[''a.txt'', ''ValidationOk1.txt'', ''ValidationError2.txt'']"
  let ?st = "\<lparr>processed_files = 0, processed_records = 0, failed_files = []\<rparr>"
  have m: "(\<lambda>fs::string list. None::error option) ?fs = None" by simp
  have "run (Inr ?fs) ?p (\<lambda>f. f) (\<lambda>fs. None) ?st = Inr (process_files ?p (\<lambda>f. f) ?fs ?st)"
    using file_errors_do_not_abort_the_batch
      [of ?p "\<lambda>f. f" ?fs ?st "''a.txt''" "FileProcessingError ''Cannot detect file type for: a.txt''"
          "[]" "[''ValidationOk1.txt'', ''ValidationError2.txt'']" "\<lambda>fs. None"] m
    by blast
  then show ?thesis
    by (simp add: process_file_def)
qed

section \<open>Properties of record sets\<close>

lemma update_row_compose:
  "update_row cols F (update_row cols G r) = update_row cols (\<lambda>l v. F l (G l v)) r"
proof (induction cols arbitrary: r)
  case Nil
  then show ?case by (simp add: update_row_def)
next
  case (Cons c cs)
  then show ?case by (cases r) (simp_all add: update_row_def)
qed

lemma length_update_row:
  "length r = length cols \<Longrightarrow> length (update_row cols F r) = length cols"
  by (simp add: update_row_def)

lemma update_row_id:
  "length r = length cols \<Longrightarrow> update_row cols (\<lambda>l v. v) r = r"
proof (induction cols arbitrary: r)
  case Nil
  then show ?case by (simp add: update_row_def)
next
  case (Cons c cs)
  then show ?case by (cases r) (simp_all add: update_row_def)
qed

lemma update_row_cong:
  "(\<And>l v. l \<in> set cols \<Longrightarrow> F l v = G l v) \<Longrightarrow> update_row cols F r = update_row cols G r"
  by (auto simp: update_row_def dest: set_zip_leftD)

lemma map_of_update_row:
  "map_of (zip cols (update_row cols F r)) c = map_option (F c) (map_of (zip cols r) c)"
proof (induction cols arbitrary: r)
  case Nil
  then show ?case by (simp add: update_row_def)
next
  case (Cons a cs)
  show ?case
  proof (cases r)
    case Nil
    then show ?thesis by (simp add: update_row_def)
  next
    case (Cons v vs)
    then show ?thesis
      using Cons.IH [of vs] by (simp add: update_row_def)
  qed
qed

lemma cell_at_update_row:
  assumes "c \<in> set cols" and "length r = length cols"
  shows "cell_at cols (update_row cols F r) c = F c (cell_at cols r c)"
proof -
  obtain v where "map_of (zip cols r) c = Some v"
    using assms map_of_zip_is_Some [of cols r c] by auto
  then show ?thesis
    by (simp add: cell_at_def map_of_update_row)
qed

lemma rows_lengths_map_column:
  "list_all (\<lambda>r. length r = length (columns d)) (rows d)
   \<Longrightarrow> list_all (\<lambda>r. length r = length (columns (map_column c f d))) (rows (map_column c f d))"
  by (simp add: map_column_def list_all_iff length_update_row)

lemma columns_map_column: "columns (map_column c f d) = columns d"
  by (simp add: map_column_def)

lemma fold_map_column:
  assumes "list_all (\<lambda>r. length r = length (columns d)) (rows d)" and "distinct cs"
  shows "fold (\<lambda>col d. if P col then map_column col f d else d) cs d
         = d\<lparr>rows := map (update_row (columns d)
                           (\<lambda>l v. if l \<in> set cs \<and> P l then f v else v)) (rows d)\<rparr>"
  using assms
proof (induction cs arbitrary: d)
  case Nil
  have "map (update_row (columns d) (\<lambda>l v. v)) (rows d) = rows d"
    using Nil.prems(1) by (simp add: list_all_iff update_row_id map_idI)
  then show ?case by simp
next
  case (Cons c cs)
  let ?step = "\<lambda>col d. if P col then map_column col f d else d"
  let ?d' = "?step c d"
  have cols: "columns ?d' = columns d" by (simp add: columns_map_column)
  have len: "list_all (\<lambda>r. length r = length (columns ?d')) (rows ?d')"
    using Cons.prems(1) rows_lengths_map_column [of d c f] by simp
  have dist: "distinct cs" and notin: "c \<notin> set cs" using Cons.prems(2) by simp_all
  have ih: "fold ?step cs ?d'
        = ?d'\<lparr>rows := map (update_row (columns ?d')
                           (\<lambda>l v. if l \<in> set cs \<and> P l then f v else v)) (rows ?d')\<rparr>"
    using Cons.IH [OF len dist] .
  show ?case
  proof (cases "P c")
    case True
    have "(\<lambda>l v. if l \<in> set cs \<and> P l then f (if l = c then f v else v)
                  else (if l = c then f v else v))
          = (\<lambda>l v. if l \<in> set (c # cs) \<and> P l then f v else v)"
      using True notin by (auto simp: fun_eq_iff)
    then show ?thesis
      using ih True by (simp add: map_column_def update_row_compose)
  next
    case False
    have "(\<lambda>l v. if l \<in> set cs \<and> P l then f v else v)
          = (\<lambda>l v. if l \<in> set (c # cs) \<and> P l then f v else v)"
      using False by (auto simp: fun_eq_iff)
    then show ?thesis
      using ih False by simp
  qed
qed

lemma clean_columns_rows:
  assumes "wf_frame d"
  shows "clean_columns na d
         = d\<lparr>rows := map (update_row (columns d)
                           (\<lambda>l v. if known_column l then clean_cell na v else v)) (rows d)\<rparr>"
proof -
  have "update_row (columns d) (\<lambda>l v. if l \<in> set (columns d) \<and> known_column l
                                       then clean_cell na v else v)
        = update_row (columns d) (\<lambda>l v. if known_column l then clean_cell na v else v)"
    by (rule ext) (rule update_row_cong, simp)
  then show ?thesis
    using assms fold_map_column [of d "columns d" known_column "clean_cell na"]
    by (simp add: clean_columns_def wf_frame_def)
qed

section \<open>Properties of cleaning\<close>

lemma after_label_colon:
  "COLON \<notin> set pre \<Longrightarrow> LF \<notin> set pre \<Longrightarrow> after_label (pre @ COLON # rest) = Some rest"
  by (induction pre) auto

lemma after_label_no_colon: "COLON \<notin> set s \<Longrightarrow> after_label s = None"
  by (induction s) auto

lemma after_label_line_feed:
  "COLON \<notin> set pre \<Longrightarrow> after_label (pre @ LF # rest) = None"
  by (induction pre) auto

lemma rev_split:
  "xs = rev (dropWhile P (rev xs)) @ rev (takeWhile P (rev xs))"
  by (metis rev_append rev_rev_ident takeWhile_dropWhile_id)

lemma strip_decomposition:
  "\<exists>a b. s = a @ strip s @ b \<and> list_all is_space a \<and> list_all is_space b"
proof -
  let ?t = "dropWhile is_space s"
  let ?a = "takeWhile is_space s"
  let ?b = "rev (takeWhile is_space (rev ?t))"
  have t: "?t = strip s @ ?b"
    unfolding strip_def by (rule rev_split)
  have "s = ?a @ ?t" by simp
  then have "s = ?a @ strip s @ ?b" using t by metis
  moreover have "list_all is_space ?a"
    by (auto simp: list_all_iff dest: set_takeWhileD)
  moreover have "list_all is_space ?b"
    by (auto simp: list_all_iff dest: set_takeWhileD)
  ultimately show ?thesis by blast
qed

lemma strip_ends:
  assumes "strip s \<noteq> []"
  shows "\<not> is_space (hd (strip s)) \<and> \<not> is_space (last (strip s))"
proof -
  let ?t = "dropWhile is_space s"
  let ?u = "dropWhile is_space (rev ?t)"
  have u: "?u \<noteq> []" using assms by (simp add: strip_def)
  have "last (strip s) = hd ?u"
    using u by (simp add: strip_def last_rev)
  moreover have "\<not> is_space (hd ?u)"
    using u hd_dropWhile by blast
  moreover have "hd (strip s) = hd ?t"
  proof -
    have "?t = strip s @ rev (takeWhile is_space (rev ?t))"
      unfolding strip_def by (rule rev_split)
    then have "hd ?t = hd (strip s @ rev (takeWhile is_space (rev ?t)))"
      by (rule arg_cong)
    then show ?thesis using assms by simp
  qed
  moreover have "?t \<noteq> []"
  proof
    assume e: "?t = []"
    have "?u = []" unfolding e by simp
    with u show False by simp
  qed
  then have "\<not> is_space (hd ?t)" using hd_dropWhile by blast
  ultimately show ?thesis by simp
qed

lemma clean_cell_Str: "clean_cell na (Str s) = Str (strip (sub_label s))"
  by (simp add: clean_cell_def str_map_def astype_str_def)

lemma columns_clean_columns: "columns (clean_columns na d) = columns d"
proof -
  have "columns (fold (\<lambda>col d. if known_column col then map_column col (clean_cell na) d else d)
                   cs e) = columns e" for cs e
    by (induction cs arbitrary: e) (simp_all add: columns_map_column)
  then show ?thesis by (simp add: clean_columns_def)
qed

lemma length_rows_clean_columns: "length (rows (clean_columns na d)) = length (rows d)"
proof -
  have "length (rows (fold (\<lambda>col d. if known_column col then map_column col (clean_cell na) d else d)
                   cs e)) = length (rows e)" for cs e
    by (induction cs arbitrary: e) (simp_all add: map_column_def)
  then show ?thesis by (simp add: clean_columns_def)
qed

lemma fill_cell_not_missing: "NaN \<noteq> fill_cell v"
  by (cases v) (simp_all add: fill_cell_def)

text \<open>
  Claim C6, as the specification states it: every value would lose its shortest leading
  substring up to and including the first colon. The pattern \<open>^.*?:\<close> cannot pass a line
  feed: the value \<open>a<LF>b:c\<close> is left as it is, where the rule gives \<open>c\<close>.
\<close>

theorem strip_label_counterexample:
  "clean_cell NaN (Str (''a'' @ [LF] @ ''b:c'')) = Str (''a'' @ [LF] @ ''b:c'')
   \<and> spec_strip_label (''a'' @ [LF] @ ''b:c'') = ''c''
   \<and> clean_cell NaN (Str (''a'' @ [LF] @ ''b:c''))
       \<noteq> Str (spec_strip_label (''a'' @ [LF] @ ''b:c''))"
  by (simp add: clean_cell_Str sub_label_def strip_def spec_strip_label_def is_space_def)

text \<open>
  Claim C6, amended. For a text value whose first colon has no line feed before it, cleaning
  removes the leading substring up to and including that colon and trims the rest; a value
  without a colon, or with a line feed before its first colon, is only trimmed. Trimming
  takes whitespace, and only whitespace, from both ends and leaves none there. In the frame
  this is what the cleaning step writes into each cell of every column that carries one of
  the schema's names.
\<close>

theorem label_prefix_is_stripped:
  "(COLON \<notin> set pre \<and> LF \<notin> set pre
      \<longrightarrow> clean_cell na (Str (pre @ COLON # rest)) = Str (strip rest))
   \<and> (COLON \<notin> set s \<longrightarrow> clean_cell na (Str s) = Str (strip s))
   \<and> (COLON \<notin> set pre
      \<longrightarrow> clean_cell na (Str (pre @ LF # rest)) = Str (strip (pre @ LF # rest)))
   \<and> (\<exists>a b. s = a @ strip s @ b \<and> list_all is_space a \<and> list_all is_space b)
   \<and> (strip s \<noteq> [] \<longrightarrow> \<not> is_space (hd (strip s)) \<and> \<not> is_space (last (strip s)))
   \<and> (wf_frame d \<and> i < length (rows d) \<and> c \<in> set (columns d) \<and> known_column c
      \<longrightarrow> cell_at (columns d) (rows (clean_columns na d) ! i) c
          = clean_cell na (cell_at (columns d) (rows d ! i) c))"
proof -
  have frame: "cell_at (columns d) (rows (clean_columns na d) ! i) c
          = clean_cell na (cell_at (columns d) (rows d ! i) c)"
    if "wf_frame d" "i < length (rows d)" "c \<in> set (columns d)" "known_column c"
  proof -
    have "length (rows d ! i) = length (columns d)"
      using that(1,2) by (simp add: wf_frame_def list_all_iff)
    then show ?thesis
      using that by (simp add: clean_columns_rows cell_at_update_row)
  qed
  show ?thesis
    using frame strip_decomposition [of s] strip_ends [of s]
    by (simp add: clean_cell_Str sub_label_def after_label_colon after_label_no_colon
        after_label_line_feed)
qed

theorem label_prefix_is_stripped_witness:
  "clean_cell (Str ''nan'') (Str ''Bank: Melli '') = Str ''Melli''"
proof -
  have "COLON \<notin> set ''Bank'' \<and> LF \<notin> set ''Bank''" by simp
  then have "clean_cell (Str ''nan'') (Str (''Bank'' @ COLON # '' Melli '')) = Str (strip '' Melli '')"
    using label_prefix_is_stripped [of "''Bank''" "Str ''nan''" "'' Melli ''"] by blast
  then show ?thesis by (simp add: strip_def is_space_def)
qed

text \<open>
  What \<open>dropna(how="all")\<close> and \<open>fillna("")\<close> do to the frame that the stripping step
  leaves: its rows without any value are removed, and in the other rows a missing cell
  becomes the empty text. Which rows of the input these are depends on what
  \<open>astype(str)\<close> made of their missing values before.
\<close>

lemma empty_rows_are_dropped:
  "length (rows (clean_columns na d)) = length (rows d)
   \<and> columns (make_data_clean na d ft) = columns d
   \<and> rows (make_data_clean na d ft)
       = map (map fill_cell) (filter (\<lambda>r. \<not> all_missing r) (rows (clean_columns na d)))
   \<and> length (rows (make_data_clean na d ft))
       + length (filter all_missing (rows (clean_columns na d))) = length (rows d)
   \<and> ((\<exists>r \<in> set (rows (clean_columns na d)). all_missing r)
        \<longrightarrow> length (rows (make_data_clean na d ft)) < length (rows d))
   \<and> (\<forall>r \<in> set (rows (make_data_clean na d ft)). NaN \<notin> set r)
   \<and> (\<forall>r \<in> set (rows (make_data_clean na d ft)).
         \<exists>r' \<in> set (rows (clean_columns na d)). \<not> all_missing r' \<and> r = map fill_cell r')
   \<and> fill_cell NaN = Str [] \<and> (\<forall>s. fill_cell (Str s) = Str s)"
proof -
  let ?c = "rows (clean_columns na d)"
  have rws: "rows (make_data_clean na d ft) = map (map fill_cell) (filter (\<lambda>r. \<not> all_missing r) ?c)"
    by (simp add: make_data_clean_def fillna_def dropna_rows_def)
  have cols: "columns (make_data_clean na d ft) = columns d"
    by (simp add: make_data_clean_def fillna_def dropna_rows_def columns_clean_columns)
  have "length (filter (\<lambda>r. \<not> all_missing r) ?c) + length (filter all_missing ?c) = length ?c"
    using sum_length_filter_compl [of all_missing ?c] by simp
  then have cnt: "length (rows (make_data_clean na d ft)) + length (filter all_missing ?c)
      = length (rows d)"
    using rws by (simp add: length_rows_clean_columns)
  have less: "length (rows (make_data_clean na d ft)) < length (rows d)"
    if "\<exists>r \<in> set ?c. all_missing r"
  proof -
    have "filter all_missing ?c \<noteq> []"
      using that by (simp add: filter_empty_conv)
    then have "0 < length (filter all_missing ?c)" by simp
    with cnt show ?thesis by linarith
  qed
  have nonan: "\<forall>r \<in> set (rows (make_data_clean na d ft)). NaN \<notin> set r"
    using rws fill_cell_not_missing by auto
  have src: "\<forall>r \<in> set (rows (make_data_clean na d ft)).
         \<exists>r' \<in> set ?c. \<not> all_missing r' \<and> r = map fill_cell r'"
    using rws by auto
  show ?thesis
    using rws cols cnt less nonan src
    by (simp add: length_rows_clean_columns fill_cell_def)
qed

lemma empty_rows_are_dropped_example:
  "rows (make_data_clean NaN
           \<lparr>columns = [Name ''BankName'', Name ''Status''],
            rows = [[NaN, NaN], [Str ''Bank: Melli'', NaN]]\<rparr> ValidationOk)
   = [[Str ''Melli'', Str []]]"
proof -
  let ?d = "\<lparr>columns = [Name ''BankName'', Name ''Status''],
            rows = [[NaN, NaN], [Str ''Bank: Melli'', NaN]]\<rparr>"
  have c: "rows (clean_columns NaN ?d) = [[NaN, NaN], [Str ''Melli'', NaN]]"
    by (simp add: clean_columns_def known_column_def VALIDATION_OK_COLS_def
        VALIDATION_ERROR_COLS_def map_column_def update_row_def clean_cell_def str_map_def
        astype_str_def sub_label_def strip_def is_space_def)
  then have "\<exists>r \<in> set (rows (clean_columns NaN ?d)). all_missing r"
    by (simp add: all_missing_def)
  then have "length (rows (make_data_clean NaN ?d ValidationOk)) < length (rows ?d)"
    using empty_rows_are_dropped [of NaN ?d ValidationOk] by blast
  moreover have "rows (make_data_clean NaN ?d ValidationOk)
       = map (map fill_cell) (filter (\<lambda>r. \<not> all_missing r) (rows (clean_columns NaN ?d)))"
    using empty_rows_are_dropped [of NaN ?d ValidationOk] by blast
  ultimately show ?thesis
    using c by (simp add: all_missing_def fill_cell_def)
qed

section \<open>Properties of the size limits\<close>

lemma map_column_absent:
  assumes "list_all (\<lambda>r. length r = length (columns d)) (rows d)" and "c \<notin> set (columns d)"
  shows "map_column c f d = d"
proof -
  have "update_row (columns d) (\<lambda>l v. if l = c then f v else v) r = r"
    if "r \<in> set (rows d)" for r
  proof -
    have "update_row (columns d) (\<lambda>l v. if l = c then f v else v) r
          = update_row (columns d) (\<lambda>l v. v) r"
      using assms(2) by (intro update_row_cong) auto
    moreover have "length r = length (columns d)"
      using assms(1) that by (simp add: list_all_iff)
    ultimately show ?thesis by (simp add: update_row_id)
  qed
  then have "map (update_row (columns d) (\<lambda>l v. if l = c then f v else v)) (rows d) = rows d"
    by (simp add: map_idI)
  then show ?thesis by (simp add: map_column_def)
qed

lemma fold_limits:
  assumes "list_all (\<lambda>r. length r = length (columns d)) (rows d)" and "distinct (map fst lims)"
  shows "fold (\<lambda>(col, limit) d.
                 if Name col \<in> set (columns d) then map_column (Name col) (T limit) d else d)
              lims d
         = d\<lparr>rows := map (update_row (columns d)
                 (\<lambda>l v. case l of
                           Name s \<Rightarrow> (case map_of lims s of Some n \<Rightarrow> T n v | None \<Rightarrow> v)
                         | Pos i \<Rightarrow> v)) (rows d)\<rparr>"
  using assms
proof (induction lims arbitrary: d)
  case Nil
  have "(\<lambda>l v. case l of
                 Name s \<Rightarrow> (case map_of ([]::(string \<times> 'a) list) s of
                               Some n \<Rightarrow> T n v | None \<Rightarrow> v)
               | Pos i \<Rightarrow> v) = (\<lambda>(l::label) (v::cell). v)"
    by (auto simp: fun_eq_iff split: label.splits)
  moreover have "map (update_row (columns d) (\<lambda>l v. v)) (rows d) = rows d"
    using Nil.prems(1) by (simp add: list_all_iff update_row_id map_idI)
  ultimately show ?case by simp
next
  case (Cons p lims)
  obtain col n where p: "p = (col, n)" by (cases p)
  let ?step = "\<lambda>(col, limit) d.
                 if Name col \<in> set (columns d) then map_column (Name col) (T limit) d else d"
  let ?d' = "map_column (Name col) (T n) d"
  have step: "?step p d = ?d'"
    using p Cons.prems(1) map_column_absent [of d "Name col" "T n"] by auto
  have len: "list_all (\<lambda>r. length r = length (columns ?d')) (rows ?d')"
    using Cons.prems(1) by (rule rows_lengths_map_column)
  have dist: "distinct (map fst lims)" and notin: "col \<notin> fst ` set lims"
    using Cons.prems(2) p by simp_all
  have none: "map_of lims col = None"
    using notin by (simp add: map_of_eq_None_iff)
  have ih: "fold ?step lims ?d'
        = ?d'\<lparr>rows := map (update_row (columns ?d')
                 (\<lambda>l v. case l of
                           Name s \<Rightarrow> (case map_of lims s of Some n \<Rightarrow> T n v | None \<Rightarrow> v)
                         | Pos i \<Rightarrow> v)) (rows ?d')\<rparr>"
    using Cons.IH [OF len dist] .
  have "(\<lambda>l v. case l of
                 Name s \<Rightarrow> (case map_of lims s of
                               Some m \<Rightarrow> T m (if l = Name col then T n v else v)
                             | None \<Rightarrow> (if l = Name col then T n v else v))
               | Pos i \<Rightarrow> (if l = Name col then T n v else v))
        = (\<lambda>l v. case l of
                   Name s \<Rightarrow> (case map_of (p # lims) s of Some n \<Rightarrow> T n v | None \<Rightarrow> v)
                 | Pos i \<Rightarrow> v)"
    using none p by (auto simp: fun_eq_iff split: label.splits option.splits)
  then show ?case
    using ih step by (simp add: map_column_def update_row_compose)
qed

lemma distinct_column_limits: "distinct (map fst column_limits)"
  by (simp add: column_limits_def)

lemma fix_column_size_rows:
  assumes "wf_frame d"
  shows "fix_column_size na d ft
         = d\<lparr>rows := map (update_row (columns d)
                 (\<lambda>l v. case l of
                           Name s \<Rightarrow> (case map_of column_limits s of
                                         Some n \<Rightarrow> truncate_cell na n v | None \<Rightarrow> v)
                         | Pos i \<Rightarrow> v)) (rows d)\<rparr>"
  unfolding fix_column_size_def
  using assms by (intro fold_limits distinct_column_limits) (simp add: wf_frame_def)

lemma truncate_cell_idem:
  "truncate_cell na n (truncate_cell na n v) = truncate_cell na n v"
  by (cases v; cases na) (simp_all add: truncate_cell_def str_map_def astype_str_def)

lemma truncate_cell_Str: "truncate_cell na n (Str s) = Str (take n s)"
  by (simp add: truncate_cell_def str_map_def astype_str_def)

lemma truncate_cell_length: "truncate_cell na n v = Str s \<Longrightarrow> length s \<le> n"
  by (cases v; cases na) (auto simp: truncate_cell_def str_map_def astype_str_def)

lemma wf_frame_fix_column_size: "wf_frame d \<Longrightarrow> wf_frame (fix_column_size na d ft)"
  by (simp add: fix_column_size_rows wf_frame_def list_all_iff length_update_row)

text \<open>
  Claim C9. For every record set (distinct labels, one cell per column in every row) of
  either schema, applying \<open>fix_column_size\<close> to its own result changes nothing: twice is
  the same as once.
\<close>

theorem fix_column_size_idempotent:
  assumes "wf_frame d"
  shows "fix_column_size na (fix_column_size na d ft) ft = fix_column_size na d ft"
proof -
  let ?T = "\<lambda>l v. case l of
                    Name s \<Rightarrow> (case map_of column_limits s of
                                  Some n \<Rightarrow> truncate_cell na n v | None \<Rightarrow> v)
                  | Pos i \<Rightarrow> v"
  have "(\<lambda>l v. ?T l (?T l v)) = ?T"
    by (auto simp: fun_eq_iff truncate_cell_idem split: label.splits option.splits)
  then have "update_row (columns d) ?T (update_row (columns d) ?T r) = update_row (columns d) ?T r"
    for r
    by (simp add: update_row_compose)
  then show ?thesis
    using assms wf_frame_fix_column_size [OF assms, of na ft]
    by (simp add: fix_column_size_rows [OF wf_frame_fix_column_size] fix_column_size_rows)
qed

theorem fix_column_size_idempotent_witness:
  "fix_column_size (Str ''nan'')
     \<lparr>columns = [Name ''Date'', Name ''Status''],
      rows = [[Str ''2023-01-10T10:00'', Str ''OK''], [NaN, Str []]]\<rparr> ValidationOk
   = \<lparr>columns = [Name ''Date'', Name ''Status''],
      rows = [[Str ''2023-01-10'', Str ''OK''], [Str ''nan'', Str []]]\<rparr>
   \<and> fix_column_size (Str ''nan'')
       \<lparr>columns = [Name ''Date'', Name ''Status''],
        rows = [[Str ''2023-01-10'', Str ''OK''], [Str ''nan'', Str []]]\<rparr> ValidationOk
     = \<lparr>columns = [Name ''Date'', Name ''Status''],
        rows = [[Str ''2023-01-10'', Str ''OK''], [Str ''nan'', Str []]]\<rparr>"
proof -
  let ?d = "\<lparr>columns = [Name ''Date'', Name ''Status''],
      rows = [[Str ''2023-01-10T10:00'', Str ''OK''], [NaN, Str []]]\<rparr>"
  have w: "wf_frame ?d" by (simp add: wf_frame_def)
  have v: "fix_column_size (Str ''nan'') ?d ValidationOk
     = \<lparr>columns = [Name ''Date'', Name ''Status''],
        rows = [[Str ''2023-01-10'', Str ''OK''], [Str ''nan'', Str []]]\<rparr>"
    by (simp add: fix_column_size_rows [OF w] column_limits_def update_row_def
        truncate_cell_def str_map_def astype_str_def)
  show ?thesis
    using fix_column_size_idempotent [OF w, of "Str ''nan''" ValidationOk] v by simp
qed

text \<open>
  Claim C4. In every record, \<open>fix_column_size\<close> replaces the value of each field that has a
  limit (BankName 100, AccountNumber 50, ShebaNumber 50, NationalCode 30, Date 10,
  TransactionTime 21, Status 1000, FileName 256, Type 20, ErrorCode 10, ProcessedAt 30) by
  its first \<open>limit\<close> characters, which is the value itself when it is within the limit;
  afterwards the text of the field is no longer than the limit, and the limit is the
  length that \<open>get_database_types\<close> declares for the field. Columns without a limit are left
  as they are.
\<close>

theorem fix_column_size_truncates:
  assumes "wf_frame d" and "i < length (rows d)" and "Name col \<in> set (columns d)"
    and "map_of column_limits col = Some limit"
  shows "columns (fix_column_size na d ft) = columns d
       \<and> length (rows (fix_column_size na d ft)) = length (rows d)
       \<and> cell_at (columns d) (rows (fix_column_size na d ft) ! i) (Name col)
         = truncate_cell na limit (cell_at (columns d) (rows d ! i) (Name col))
       \<and> (\<forall>s. cell_at (columns d) (rows d ! i) (Name col) = Str s
            \<longrightarrow> cell_at (columns d) (rows (fix_column_size na d ft) ! i) (Name col)
                = Str (take limit s)
              \<and> length (take limit s) \<le> limit
              \<and> (length s \<le> limit \<longrightarrow> take limit s = s))
       \<and> (\<forall>s. cell_at (columns d) (rows (fix_column_size na d ft) ! i) (Name col) = Str s
            \<longrightarrow> length s \<le> limit)
       \<and> (\<forall>t. map_of (get_database_types ft) col = Some t \<longrightarrow> sql_length t = limit)
       \<and> (\<forall>c \<in> set (columns d). (\<forall>s. c = Name s \<longrightarrow> map_of column_limits s = None)
            \<longrightarrow> cell_at (columns d) (rows (fix_column_size na d ft) ! i) c
                = cell_at (columns d) (rows d ! i) c)
       \<and> column_limits
         = [(''BankName'', 100), (''AccountNumber'', 50), (''ShebaNumber'', 50),
            (''NationalCode'', 30), (''Date'', 10), (''TransactionTime'', 21),
            (''Status'', 1000), (''FileName'', 256), (''Type'', 20), (''ErrorCode'', 10),
            (''ProcessedAt'', 30)]"
proof -
  let ?T = "\<lambda>l v. case l of
                    Name s \<Rightarrow> (case map_of column_limits s of
                                  Some n \<Rightarrow> truncate_cell na n v | None \<Rightarrow> v)
                  | Pos i \<Rightarrow> v"
  have len: "length (rows d ! i) = length (columns d)"
    using assms(1,2) by (simp add: wf_frame_def list_all_iff)
  have row: "rows (fix_column_size na d ft) ! i = update_row (columns d) ?T (rows d ! i)"
    using assms(1,2) by (simp add: fix_column_size_rows)
  have cell: "cell_at (columns d) (rows (fix_column_size na d ft) ! i) c
              = ?T c (cell_at (columns d) (rows d ! i) c)" if "c \<in> set (columns d)" for c
    using that len row by (simp add: cell_at_update_row)
  have a: "cell_at (columns d) (rows (fix_column_size na d ft) ! i) (Name col)
         = truncate_cell na limit (cell_at (columns d) (rows d ! i) (Name col))"
    using cell [OF assms(3)] assms(4) by simp
  have b: "\<forall>c \<in> set (columns d). (\<forall>s. c = Name s \<longrightarrow> map_of column_limits s = None)
            \<longrightarrow> cell_at (columns d) (rows (fix_column_size na d ft) ! i) c
                = cell_at (columns d) (rows d ! i) c"
    using cell by (auto split: label.splits)
  have c: "\<forall>t. map_of (get_database_types ft) col = Some t \<longrightarrow> sql_length t = limit"
    using assms(4)
    by (cases ft) (auto simp: common_types_def column_limits_def split: if_splits)
  have e: "\<forall>s. cell_at (columns d) (rows (fix_column_size na d ft) ! i) (Name col) = Str s
            \<longrightarrow> length s \<le> limit"
  proof (intro allI impI)
    fix s
    assume "cell_at (columns d) (rows (fix_column_size na d ft) ! i) (Name col) = Str s"
    then have "truncate_cell na limit (cell_at (columns d) (rows d ! i) (Name col)) = Str s"
      using a by simp
    then show "length s \<le> limit" by (rule truncate_cell_length)
  qed
  have s4: "\<forall>s. cell_at (columns d) (rows d ! i) (Name col) = Str s
            \<longrightarrow> cell_at (columns d) (rows (fix_column_size na d ft) ! i) (Name col)
                = Str (take limit s)
              \<and> length (take limit s) \<le> limit
              \<and> (length s \<le> limit \<longrightarrow> take limit s = s)"
    using a by (simp add: truncate_cell_Str)
  have c1: "columns (fix_column_size na d ft) = columns d"
    using assms(1) by (simp add: fix_column_size_rows)
  have c2: "length (rows (fix_column_size na d ft)) = length (rows d)"
    using assms(1) by (simp add: fix_column_size_rows)
  have c8: "column_limits
         = [(''BankName'', 100), (''AccountNumber'', 50), (''ShebaNumber'', 50),
            (''NationalCode'', 30), (''Date'', 10), (''TransactionTime'', 21),
            (''Status'', 1000), (''FileName'', 256), (''Type'', 20), (''ErrorCode'', 10),
            (''ProcessedAt'', 30)]"
    by (simp add: column_limits_def)
  show ?thesis
    by (intro conjI c1 c2 a s4 e c b c8)
qed

theorem fix_column_size_truncates_witness:
  "cell_at [Name ''Date'', Name ''Status'']
     (rows (fix_column_size (Str ''nan'')
              \<lparr>columns = [Name ''Date'', Name ''Status''],
               rows = [[Str ''2023-01-10T10:00'', Str ''OK'']]\<rparr> ValidationError) ! 0)
     (Name ''Date'')
   = Str ''2023-01-10''"
proof -
  let ?d = "\<lparr>columns = [Name ''Date'', Name ''Status''],
               rows = [[Str ''2023-01-10T10:00'', Str ''OK'']]\<rparr>"
  have w: "wf_frame ?d" by (simp add: wf_frame_def)
  have i: "0 < length (rows ?d)" by simp
  have c: "Name ''Date'' \<in> set (columns ?d)" by simp
  have l: "map_of column_limits ''Date'' = Some 10" by (simp add: column_limits_def)
  have "cell_at (columns ?d) (rows (fix_column_size (Str ''nan'') ?d ValidationError) ! 0)
          (Name ''Date'')
        = truncate_cell (Str ''nan'') 10 (cell_at (columns ?d) (rows ?d ! 0) (Name ''Date''))"
    using fix_column_size_truncates [OF w i c l, of "Str ''nan''" ValidationError] by blast
  then show ?thesis
    by (simp add: cell_at_def truncate_cell_Str)
qed

section \<open>Properties of enrichment\<close>

lemma cell_at_set_cell:
  assumes "length r = length cols"
  shows "cell_at (if c \<in> set cols then cols else cols @ [c]) (set_cell c g cols r) c'
         = (if c' = c then g r else cell_at cols r c')"
proof (cases "c \<in> set cols")
  case True
  then obtain v where v: "map_of (zip cols r) c = Some v"
    using assms map_of_zip_is_Some [of cols r c] by auto
  show ?thesis
  proof (cases "c' = c")
    case True
    with \<open>c \<in> set cols\<close> v show ?thesis
      by (simp add: set_cell_def cell_at_def map_of_update_row)
  next
    case False
    with \<open>c \<in> set cols\<close> show ?thesis
      by (cases "map_of (zip cols r) c'")
         (simp_all add: set_cell_def cell_at_def map_of_update_row)
  qed
next
  case False
  then have none: "map_of (zip cols r) c = None"
    using assms by (simp add: map_of_zip_is_None)
  have "zip (cols @ [c]) (r @ [g r]) = zip cols r @ [(c, g r)]"
    using assms by simp
  then show ?thesis
    using False none
    by (cases "map_of (zip cols r) c'") (auto simp: set_cell_def cell_at_def map_add_def)
qed

lemma length_set_cell:
  "length r = length cols
   \<Longrightarrow> length (set_cell c g cols r) = length (if c \<in> set cols then cols else cols @ [c])"
  by (simp add: set_cell_def length_update_row)

lemma set_column_cell:
  assumes "wf_frame d" and "i < length (rows d)"
  shows "wf_frame (set_column c g d)
       \<and> length (rows (set_column c g d)) = length (rows d)
       \<and> set (columns (set_column c g d)) = insert c (set (columns d))
       \<and> (\<forall>c'. cell_at (columns (set_column c g d)) (rows (set_column c g d) ! i) c'
               = (if c' = c then g (rows d ! i) else cell_at (columns d) (rows d ! i) c'))"
proof -
  have len: "length r = length (columns d)" if "r \<in> set (rows d)" for r
    using assms(1) that by (simp add: wf_frame_def list_all_iff)
  have "wf_frame (set_column c g d)"
    using assms(1) len
    by (auto simp: wf_frame_def set_column_def list_all_iff length_set_cell)
  moreover have "set (columns (set_column c g d)) = insert c (set (columns d))"
    by (auto simp: set_column_def)
  moreover have "cell_at (columns (set_column c g d)) (rows (set_column c g d) ! i) c'
               = (if c' = c then g (rows d ! i) else cell_at (columns d) (rows d ! i) c')" for c'
    using assms(2) len [of "rows d ! i"] cell_at_set_cell [of "rows d ! i" "columns d" c g c']
    by (simp add: set_column_def)
  ultimately show ?thesis by (simp add: set_column_def)
qed

lemma cell_at_select:
  "c \<in> set cs \<Longrightarrow> cell_at cs (map f cs) c = f c"
  by (simp add: cell_at_def map_of_zip_map)

lemma cell_at_member:
  assumes "c \<in> set cols" and "length r = length cols"
  shows "cell_at cols r c \<in> set r"
proof -
  obtain v where v: "map_of (zip cols r) c = Some v"
    using assms map_of_zip_is_Some [of cols r c] by auto
  then have "(c, v) \<in> set (zip cols r)" by (rule map_of_SomeD)
  then have "v \<in> set r" by (rule set_zip_rightD)
  with v show ?thesis by (simp add: cell_at_def)
qed

lemma Date_in_order: "''Date'' \<in> set (column_order ft)"
  by (cases ft) simp_all

lemma TransactionTime_in_order: "''TransactionTime'' \<in> set (column_order ft)"
  by (cases ft) simp_all

text \<open>
  Claim C5. In every record that \<open>enrich_data\<close> returns, \<open>Date\<close> is the first ten
  characters of the record's \<open>TransactionTime\<close>, which enrichment leaves as it was; so it
  is empty when \<open>TransactionTime\<close> is empty, and it is the empty text when the frame has
  no \<open>TransactionTime\<close> column. In a frame without missing cells, as \<open>make_data_clean\<close>
  returns it, both are texts.
\<close>

theorem date_is_prefix_of_transaction_time:
  assumes "wf_frame d" and "i < length (rows d)"
  shows "length (rows (enrich_data now d filename ft)) = length (rows d)
       \<and> Name ''Date'' \<in> set (columns (enrich_data now d filename ft))
       \<and> (Name ''TransactionTime'' \<in> set (columns d)
            \<longrightarrow> cell_at (columns (enrich_data now d filename ft))
                   (rows (enrich_data now d filename ft) ! i) (Name ''TransactionTime'')
                = cell_at (columns d) (rows d ! i) (Name ''TransactionTime''))
       \<and> (Name ''TransactionTime'' \<in> set (columns d)
            \<longrightarrow> cell_at (columns (enrich_data now d filename ft))
                   (rows (enrich_data now d filename ft) ! i) (Name ''Date'')
                = str_map (take 10)
                    (cell_at (columns (enrich_data now d filename ft))
                       (rows (enrich_data now d filename ft) ! i) (Name ''TransactionTime'')))
       \<and> (\<forall>t. Name ''TransactionTime'' \<in> set (columns d)
              \<and> cell_at (columns (enrich_data now d filename ft))
                   (rows (enrich_data now d filename ft) ! i) (Name ''TransactionTime'') = Str t
            \<longrightarrow> cell_at (columns (enrich_data now d filename ft))
                   (rows (enrich_data now d filename ft) ! i) (Name ''Date'') = Str (take 10 t))
       \<and> (Name ''TransactionTime'' \<in> set (columns d) \<and> NaN \<notin> set (rows d ! i)
            \<longrightarrow> (\<exists>t. cell_at (columns (enrich_data now d filename ft))
                       (rows (enrich_data now d filename ft) ! i) (Name ''TransactionTime'') = Str t
                   \<and> cell_at (columns (enrich_data now d filename ft))
                       (rows (enrich_data now d filename ft) ! i) (Name ''Date'')
                     = Str (take 10 t)))
       \<and> (Name ''TransactionTime'' \<in> set (columns d)
              \<and> cell_at (columns d) (rows d ! i) (Name ''TransactionTime'') = Str []
            \<longrightarrow> cell_at (columns (enrich_data now d filename ft))
                   (rows (enrich_data now d filename ft) ! i) (Name ''Date'') = Str [])
       \<and> (Name ''TransactionTime'' \<notin> set (columns d)
            \<longrightarrow> cell_at (columns (enrich_data now d filename ft))
                   (rows (enrich_data now d filename ft) ! i) (Name ''Date'') = Str [])"
proof -
  let ?TT = "Name ''TransactionTime''"
  let ?D = "Name ''Date''"
  define gd where "gd = (if ?TT \<in> set (columns d)
      then (\<lambda>r. str_map (take 10) (cell_at (columns d) r ?TT)) else (\<lambda>r. Str []))"
  define d1 where "d1 = set_column ?D gd d"
  define d2 where "d2 = set_column (Name ''FileName'') (\<lambda>r. Str filename) d1"
  define d3 where "d3 = set_column (Name ''Type'') (\<lambda>r. Str (type_name ft)) d2"
  define d4 where "d4 = set_column (Name ''ProcessedAt'') (\<lambda>r. Str now) d3"
  define order where "order = filter (\<lambda>col. col \<in> set (columns d4)) (map Name (column_order ft))"
  define e where "e = enrich_data now d filename ft"
  have e: "e = select_columns order d4"
    by (simp add: e_def enrich_data_def Let_def order_def d4_def d3_def d2_def d1_def gd_def)
  note s1 = set_column_cell [OF assms, of ?D gd, folded d1_def]
  then have w1: "wf_frame d1" and l1: "i < length (rows d1)" using assms(2) by simp_all
  note s2 = set_column_cell [OF w1 l1, of "Name ''FileName''" "\<lambda>r. Str filename", folded d2_def]
  then have w2: "wf_frame d2" and l2: "i < length (rows d2)" using l1 by simp_all
  note s3 = set_column_cell [OF w2 l2, of "Name ''Type''" "\<lambda>r. Str (type_name ft)", folded d3_def]
  then have w3: "wf_frame d3" and l3: "i < length (rows d3)" using l2 by simp_all
  note s4 = set_column_cell [OF w3 l3, of "Name ''ProcessedAt''" "\<lambda>r. Str now", folded d4_def]
  then have l4: "i < length (rows d4)" using l3 by simp
  have len: "length (rows e) = length (rows d)"
    using s1 s2 s3 s4 by (simp add: e select_columns_def)
  have cols4: "set (columns d4)
      = insert (Name ''ProcessedAt'') (insert (Name ''Type'') (insert (Name ''FileName'')
          (insert ?D (set (columns d)))))"
    using s1 s2 s3 s4 by simp
  have dcell4: "cell_at (columns d4) (rows d4 ! i) ?D = gd (rows d ! i)"
    using s1 s2 s3 s4 by simp
  have tcell4: "cell_at (columns d4) (rows d4 ! i) ?TT = cell_at (columns d) (rows d ! i) ?TT"
    using s1 s2 s3 s4 by simp
  have Din: "?D \<in> set order"
    using cols4 Date_in_order [of ft] by (simp add: order_def)
  have Tin: "?TT \<in> set order" if "?TT \<in> set (columns d)"
    using that cols4 TransactionTime_in_order [of ft] by (simp add: order_def)
  have row: "rows e ! i = map (cell_at (columns d4) (rows d4 ! i)) order"
    using l4 by (simp add: e select_columns_def)
  have ce: "columns e = order" by (simp add: e select_columns_def)
  have dcell: "cell_at (columns e) (rows e ! i) ?D = gd (rows d ! i)"
    using Din dcell4 by (simp add: ce row cell_at_select)
  have tcell: "cell_at (columns e) (rows e ! i) ?TT = cell_at (columns d) (rows d ! i) ?TT"
    if "?TT \<in> set (columns d)"
    using Tin [OF that] tcell4 by (simp add: ce row cell_at_select)
  have c2: "?D \<in> set (columns e)" using Din ce by simp
  have c3: "?TT \<in> set (columns d)
      \<longrightarrow> cell_at (columns e) (rows e ! i) ?TT = cell_at (columns d) (rows d ! i) ?TT"
    using tcell by simp
  have c4: "?TT \<in> set (columns d)
      \<longrightarrow> cell_at (columns e) (rows e ! i) ?D
          = str_map (take 10) (cell_at (columns e) (rows e ! i) ?TT)"
    using tcell dcell by (simp add: gd_def)
  have c5: "\<forall>t. ?TT \<in> set (columns d) \<and> cell_at (columns e) (rows e ! i) ?TT = Str t
      \<longrightarrow> cell_at (columns e) (rows e ! i) ?D = Str (take 10 t)"
    using c4 by (simp add: str_map_def)
  have c6: "?TT \<in> set (columns d) \<and> NaN \<notin> set (rows d ! i)
      \<longrightarrow> (\<exists>t. cell_at (columns e) (rows e ! i) ?TT = Str t
             \<and> cell_at (columns e) (rows e ! i) ?D = Str (take 10 t))"
  proof
    assume a: "?TT \<in> set (columns d) \<and> NaN \<notin> set (rows d ! i)"
    have "length (rows d ! i) = length (columns d)"
      using assms by (simp add: wf_frame_def list_all_iff)
    then have "cell_at (columns d) (rows d ! i) ?TT \<in> set (rows d ! i)"
      using a cell_at_member by blast
    then have "cell_at (columns d) (rows d ! i) ?TT \<noteq> NaN"
      using a by metis
    then obtain t where "cell_at (columns d) (rows d ! i) ?TT = Str t"
      by (cases "cell_at (columns d) (rows d ! i) ?TT") simp_all
    then have "cell_at (columns e) (rows e ! i) ?TT = Str t"
      using a tcell by simp
    then show "\<exists>t. cell_at (columns e) (rows e ! i) ?TT = Str t
             \<and> cell_at (columns e) (rows e ! i) ?D = Str (take 10 t)"
      using a c5 by blast
  qed
  have c7: "?TT \<in> set (columns d) \<and> cell_at (columns d) (rows d ! i) ?TT = Str []
      \<longrightarrow> cell_at (columns e) (rows e ! i) ?D = Str []"
    using dcell by (simp add: gd_def str_map_def)
  have c8: "?TT \<notin> set (columns d) \<longrightarrow> cell_at (columns e) (rows e ! i) ?D = Str []"
    using dcell by (simp add: gd_def)
  show ?thesis
    unfolding e_def [symmetric]
    by (intro conjI len c2 c3 c4 c5 c6 c7 c8)
qed

theorem date_is_prefix_of_transaction_time_witness:
  "cell_at
     (columns (enrich_data ''2026-01-01T00:00:00''
        \<lparr>columns = [Name ''BankName'', Name ''TransactionTime''],
         rows = [[Str ''Melli'', Str ''2023-01-10T10:00:00'']]\<rparr> ''ValidationOk1.txt'' ValidationOk))
     (rows (enrich_data ''2026-01-01T00:00:00''
        \<lparr>columns = [Name ''BankName'', Name ''TransactionTime''],
         rows = [[Str ''Melli'', Str ''2023-01-10T10:00:00'']]\<rparr> ''ValidationOk1.txt'' ValidationOk) ! 0)
     (Name ''Date'')
   = Str ''2023-01-10''"
proof -
  let ?d = "\<lparr>columns = [Name ''BankName'', Name ''TransactionTime''],
         rows = [[Str ''Melli'', Str ''2023-01-10T10:00:00'']]\<rparr>"
  let ?e = "enrich_data ''2026-01-01T00:00:00'' ?d ''ValidationOk1.txt'' ValidationOk"
  have w: "wf_frame ?d" by (simp add: wf_frame_def)
  have i: "0 < length (rows ?d)" by simp
  have c: "Name ''TransactionTime'' \<in> set (columns ?d)" by simp
  have t: "cell_at (columns ?d) (rows ?d ! 0) (Name ''TransactionTime'')
           = Str ''2023-01-10T10:00:00''"
    by (simp add: cell_at_def)
  have "cell_at (columns ?e) (rows ?e ! 0) (Name ''TransactionTime'')
        = Str ''2023-01-10T10:00:00''"
    using date_is_prefix_of_transaction_time
      [OF w i, of "''2026-01-01T00:00:00''" "''ValidationOk1.txt''" ValidationOk] c t
    by simp
  then have "cell_at (columns ?e) (rows ?e ! 0) (Name ''Date'')
        = Str (take 10 ''2023-01-10T10:00:00'')"
    using date_is_prefix_of_transaction_time
      [OF w i, of "''2026-01-01T00:00:00''" "''ValidationOk1.txt''" ValidationOk] c
    by blast
  then show ?thesis by simp
qed

section \<open>Properties of loading\<close>

lemma cells_of_row:
  assumes "distinct cols" and "length r = length cols"
  shows "map (cell_at cols r) cols = r"
proof (rule nth_equalityI)
  show "length (map (cell_at cols r) cols) = length r" using assms(2) by simp
next
  fix i assume "i < length (map (cell_at cols r) cols)"
  then have i: "i < length r" using assms(2) by simp
  then have "map_of (zip cols r) (cols ! i) = Some (r ! i)"
    using assms by (simp add: map_of_zip_nth)
  then show "map (cell_at cols r) cols ! i = r ! i"
    using i assms(2) by (simp add: cell_at_def)
qed

lemma frame_eqI: "columns a = columns b \<Longrightarrow> rows a = rows b \<Longrightarrow> a = (b::frame)"
  by simp

lemma select_all_columns:
  assumes "wf_frame d"
  shows "select_columns (columns d) d = d"
proof (rule frame_eqI)
  show "columns (select_columns (columns d) d) = columns d"
    by (simp add: select_columns_def)
  have "map (cell_at (columns d) r) (columns d) = r" if "r \<in> set (rows d)" for r
    using assms that by (intro cells_of_row) (simp_all add: wf_frame_def list_all_iff)
  then show "rows (select_columns (columns d) d) = rows d"
    by (simp add: select_columns_def map_idI)
qed

lemma dropna_columns_full_row:
  assumes "wf_frame d" and "r \<in> set (rows d)" and "NaN \<notin> set r"
  shows "dropna_columns d = d"
proof -
  have len: "length r = length (columns d)"
    using assms(1,2) by (simp add: wf_frame_def list_all_iff)
  have "list_ex (\<lambda>r. cell_at (columns d) r c \<noteq> NaN) (rows d)" if "c \<in> set (columns d)" for c
  proof -
    have "cell_at (columns d) r c \<in> set r"
      using that len by (rule cell_at_member)
    then have "cell_at (columns d) r c \<noteq> NaN"
      using assms(3) by metis
    then show ?thesis
      using assms(2) by (auto simp: list_ex_iff)
  qed
  then have "filter (\<lambda>c. list_ex (\<lambda>r. cell_at (columns d) r c \<noteq> NaN) (rows d)) (columns d)
             = columns d"
    by (simp add: filter_id_conv)
  then show ?thesis
    using assms(1) by (simp add: dropna_columns_def select_all_columns)
qed

lemma concat_frames_same_columns:
  assumes "wf_frame a" and "wf_frame b" and "columns b = columns a"
  shows "concat_frames a b = \<lparr>columns = columns a, rows = rows a @ rows b\<rparr>"
proof -
  have "filter (\<lambda>c. c \<notin> set (columns a)) (columns b) = []"
    using assms(3) by (simp add: filter_empty_conv)
  moreover have "map (\<lambda>r. map (cell_at (columns a) r) (columns a)) (rows a) = rows a"
    using assms(1) by (intro map_idI cells_of_row) (simp_all add: wf_frame_def list_all_iff)
  moreover have "map (\<lambda>r. map (cell_at (columns b) r) (columns a)) (rows b) = rows b"
    using assms(2,3) by (intro map_idI) (simp add: wf_frame_def list_all_iff cells_of_row)
  ultimately show ?thesis
    by (simp add: concat_frames_def Let_def)
qed

lemma distinct_expected_cols: "distinct (map Name (expected_cols ft))"
  by (cases ft) (simp_all add: distinct_map inj_on_def)

text \<open>
  Claim C10. For a \<open>ValidationError\<close> file the recovery pass reads the lines of the file
  and takes every line with an opening brace, whatever the CSV reader made of it, and its
  records are appended to the reader's. So when the reader returned seven columns and, as
  one of its rows, the fields of a line that has a brace and splits into seven fields, the
  loaded frame has the reader's rows followed by the recovered ones and holds that record
  at least twice.
\<close>

theorem accepted_line_with_brace_is_loaded_twice:
  assumes "wf_frame parsed" and "columns parsed = map Pos [0..<7]"
    and "map Str fs \<in> set (rows parsed)"
    and "line \<in> set lines" and "has_brace line" and "json_line line = Inr t"
    and "split_on TAB t = fs" and "length fs = 7"
  shows "\<exists>rs. readErroneusLines lines = Inr rs \<and> fs \<in> set rs
           \<and> read_erroneous_lines lines
             = \<lparr>columns = map Name (expected_cols ValidationError), rows = map (map Str) rs\<rparr>
           \<and> load_text_files parsed lines ValidationError
             = \<lparr>columns = map Name (expected_cols ValidationError),
                rows = rows parsed @ map (map Str) rs\<rparr>
           \<and> 2 \<le> count_list (rows (load_text_files parsed lines ValidationError)) (map Str fs)"
proof -
  let ?js = "map (\<lambda>l. projr (json_line l)) (filter has_brace lines)"
  let ?rs = "lines_corrected (map (split_on TAB) ?js)"
  let ?names = "map Name (expected_cols ValidationError)"
  have all: "readErroneusLines lines = Inr ?rs"
    by (simp add: readErroneusLines_def json_lines_total)
  have "t \<in> set ?js" using assms(4,5,6) by force
  then have "fs \<in> set (map (split_on TAB) ?js)" using assms(7) by auto
  moreover have "correct_line fs = Some fs"
    using assms(8) by (simp add: correct_line_def)
  ultimately have mem: "fs \<in> set ?rs" by (rule lines_corrected_member)
  then have ne: "?rs \<noteq> []" by auto
  have rec: "read_erroneous_lines lines = \<lparr>columns = ?names, rows = map (map Str) ?rs\<rparr>"
    using all ne by (rule read_erroneous_lines_frame)
  have "NaN \<notin> set (map Str fs)" by auto
  then have "dropna_columns parsed = parsed"
    using assms(1,3) dropna_columns_full_row by blast
  moreover have "parsed = \<lparr>columns = map Pos [0..<7], rows = rows parsed\<rparr>"
    using assms(2) by simp
  ultimately have df: "rename_columns (dropna_columns parsed) ValidationError
      = \<lparr>columns = ?names, rows = rows parsed\<rparr>"
    using rename_seven [of "rows parsed"] by simp
  have wa: "wf_frame \<lparr>columns = ?names, rows = rows parsed\<rparr>"
    using assms(1,2) distinct_expected_cols [of ValidationError]
    by (simp add: wf_frame_def list_all_iff)
  have wb: "wf_frame \<lparr>columns = ?names, rows = map (map Str) ?rs\<rparr>"
    using lines_corrected_length distinct_expected_cols [of ValidationError]
    by (auto simp: wf_frame_def list_all_iff)
  have "\<not> frame_empty (read_erroneous_lines lines)"
    using ne by (simp add: rec frame_empty_def)
  then have load: "load_text_files parsed lines ValidationError
      = \<lparr>columns = ?names, rows = rows parsed @ map (map Str) ?rs\<rparr>"
    using concat_frames_same_columns [OF wa wb]
    by (simp add: load_text_files_def Let_def df rec)
  have "1 \<le> count_list (rows parsed) (map Str fs)"
    using assms(3) count_list_0_iff [of "rows parsed" "map Str fs"] by linarith
  moreover have "map Str fs \<in> set (map (map Str) ?rs)"
    using mem by auto
  then have "1 \<le> count_list (map (map Str) ?rs) (map Str fs)"
    using count_list_0_iff [of "map (map Str) ?rs" "map Str fs"] by linarith
  ultimately have "2 \<le> count_list (rows parsed @ map (map Str) ?rs) (map Str fs)"
    by simp
  then have "2 \<le> count_list (rows (load_text_files parsed lines ValidationError)) (map Str fs)"
    by (simp add: load)
  then show ?thesis
    using all mem rec load by blast
qed

theorem accepted_line_with_brace_is_loaded_twice_witness:
  "load_text_files
     \<lparr>columns = map Pos [0..<7],
      rows = [[Str ''A'', Str ''B'', Str ''C'', Str ''D'', Str ''E'', Str ''F'', Str ''{x}'']]\<rparr>
     [''A'' @ [TAB] @ ''B'' @ [TAB] @ ''C'' @ [TAB] @ ''D'' @ [TAB] @ ''E'' @ [TAB] @ ''F''
      @ [TAB] @ ''{x}'' @ [LF]]
     ValidationError
   = \<lparr>columns = map Name (expected_cols ValidationError),
      rows = [[Str ''A'', Str ''B'', Str ''C'', Str ''D'', Str ''E'', Str ''F'', Str ''{x}''],
              [Str ''A'', Str ''B'', Str ''C'', Str ''D'', Str ''E'', Str ''F'', Str ''{x}'']]\<rparr>"
proof -
  let ?parsed = "\<lparr>columns = map Pos [0..<7],
      rows = [[Str ''A'', Str ''B'', Str ''C'', Str ''D'', Str ''E'', Str ''F'', Str ''{x}'']]\<rparr>"
  let ?line = "''A'' @ [TAB] @ ''B'' @ [TAB] @ ''C'' @ [TAB] @ ''D'' @ [TAB] @ ''E'' @ [TAB] @ ''F''
      @ [TAB] @ ''{x}'' @ [LF]"
  let ?t = "''A'' @ [TAB] @ ''B'' @ [TAB] @ ''C'' @ [TAB] @ ''D'' @ [TAB] @ ''E'' @ [TAB] @ ''F''
      @ [TAB] @ ''{x}''"
  let ?fs = "[''A'', ''B'', ''C'', ''D'', ''E'', ''F'', ''{x}'']"
  have a: "wf_frame ?parsed" by (simp add: wf_frame_def distinct_map inj_on_def)
  have b: "columns ?parsed = map Pos [0..<7]" by simp
  have c: "map Str ?fs \<in> set (rows ?parsed)" by simp
  have d: "?line \<in> set [?line]" by simp
  have e: "has_brace ?line" by (simp add: has_brace_def)
  have f: "json_line ?line = Inr ?t"
    by (simp add: json_line_def findall_brace_def has_brace_def)
  have g: "split_on TAB ?t = ?fs" by simp
  have h: "length ?fs = 7" by simp
  have one: "readErroneusLines [?line] = Inr [?fs]"
    using e f g
    by (simp add: readErroneusLines_def json_lines_total lines_corrected_def correct_line_def)
  obtain rs where r: "readErroneusLines [?line] = Inr rs"
    and l: "load_text_files ?parsed [?line] ValidationError
      = \<lparr>columns = map Name (expected_cols ValidationError),
         rows = rows ?parsed @ map (map Str) rs\<rparr>"
    using accepted_line_with_brace_is_loaded_twice [OF a b c d e f g h] by blast
  have "rs = [?fs]" using r one by simp
  then show ?thesis using l by simp
qed

section \<open>The legacy script against the classes\<close>

lemma detectFileType_agrees:
  "detect_file_type name = Inr ft \<longleftrightarrow> detectFileType name = Inr (type_name ft)"
  by (cases "first_match name") (simp_all add: detect_file_type_Inr detectFileType_def)

lemma detectFileType_no_match:
  "\<not> file_pattern_matches name \<Longrightarrow> detectFileType name = Inl IndexError"
  by (simp add: first_match_None_iff [symmetric] detectFileType_def)

lemma legacy_limits_exceed_declared_lengths:
  "map_of (fixColumnSize_limits ft) ''NationalCode'' = Some 50
   \<and> map_of (setDBTypes ft) ''NationalCode'' = Some (VARCHAR 30)"
  by (cases ft) simp_all

lemma main_loop_stops_at_first_error:
  "pipeline f = Inl e \<Longrightarrow> \<forall>g \<in> set before. \<not> isl (pipeline g)
   \<Longrightarrow> main_loop pipeline (before @ f # remaining) = Some e"
  by (induction before) (auto split: sum.splits)

lemma unrecognised_file_is_recorded:
  assumes "\<not> file_pattern_matches (file_name f)"
  shows "\<exists>e. file_pipeline cfg na now to_pickle to_sql f = Inl e"
    and "failed_files (process_files (file_pipeline cfg na now to_pickle to_sql) file_name
           (f # fs) st)
         = failed_files (process_files (file_pipeline cfg na now to_pickle to_sql) file_name
             fs (st\<lparr>failed_files := failed_files st @ [file_name f]\<rparr>))"
proof -
  have "first_match (file_name f) = None"
    using assms by (simp add: first_match_None_iff)
  then have p: "\<exists>e. file_pipeline cfg na now to_pickle to_sql f = Inl e"
    by (simp add: file_pipeline_def detect_file_type_def)
  then show "\<exists>e. file_pipeline cfg na now to_pickle to_sql f = Inl e" .
  from p show "failed_files (process_files (file_pipeline cfg na now to_pickle to_sql) file_name
           (f # fs) st)
         = failed_files (process_files (file_pipeline cfg na now to_pickle to_sql) file_name
             fs (st\<lparr>failed_files := failed_files st @ [file_name f]\<rparr>))"
    by (auto simp: process_file_def)
qed

section \<open>Rows that cleaning keeps\<close>

text \<open>
  A row is dropped for missing cells only: a row whose texts are all empty after the
  prefix is stripped is kept.
\<close>

lemma row_of_empty_texts_is_kept:
  "make_data_clean na \<lparr>columns = [Name ''Status''], rows = [[Str ''Status: '']]\<rparr> ft
   = \<lparr>columns = [Name ''Status''], rows = [[Str []]]\<rparr>"
  by (simp add: make_data_clean_def fillna_def dropna_rows_def clean_columns_def
      known_column_def VALIDATION_OK_COLS_def VALIDATION_ERROR_COLS_def map_column_def
      update_row_def clean_cell_def str_map_def astype_str_def sub_label_def strip_def
      is_space_def all_missing_def fill_cell_def)

lemma clean_cell_of_text_for_missing: "\<exists>t. clean_cell (Str s) v = Str t"
  by (cases v) (simp_all add: clean_cell_def str_map_def astype_str_def)

lemma clean_cell_missing_stays: "clean_cell NaN NaN = NaN"
  by (simp add: clean_cell_def str_map_def astype_str_def)

text \<open>
  Where \<open>astype(str)\<close> turns a missing value into a text (pandas 1 and 2), no cell of a
  schema column is missing after the stripping step: a frame with such a column keeps
  every row, whatever its rows held, and \<open>fillna\<close> finds nothing to fill in that column.
\<close>

lemma text_for_missing_keeps_every_row:
  assumes "wf_frame d" and "c \<in> set (columns d)" and "known_column c"
  shows "length (rows (make_data_clean (Str s) d ft)) = length (rows d)"
    and "rows (make_data_clean (Str s) d ft)
         = map (map fill_cell)
             (map (update_row (columns d)
                     (\<lambda>l v. if known_column l then clean_cell (Str s) v else v)) (rows d))"
proof -
  let ?F = "\<lambda>l v. if known_column l then clean_cell (Str s) v else v"
  have cl: "rows (clean_columns (Str s) d) = map (update_row (columns d) ?F) (rows d)"
    using assms(1) by (simp add: clean_columns_rows)
  have "\<not> all_missing (update_row (columns d) ?F r)" if "r \<in> set (rows d)" for r
  proof -
    have len: "length r = length (columns d)"
      using assms(1) that by (simp add: wf_frame_def list_all_iff)
    then have len': "length (update_row (columns d) ?F r) = length (columns d)"
      by (rule length_update_row)
    have "cell_at (columns d) (update_row (columns d) ?F r) c
          = clean_cell (Str s) (cell_at (columns d) r c)"
      using assms(2,3) len by (simp add: cell_at_update_row)
    then obtain t where "cell_at (columns d) (update_row (columns d) ?F r) c = Str t"
      using clean_cell_of_text_for_missing [of s "cell_at (columns d) r c"] by auto
    moreover have "cell_at (columns d) (update_row (columns d) ?F r) c
          \<in> set (update_row (columns d) ?F r)"
      using assms(2) len' by (rule cell_at_member)
    ultimately have "Str t \<in> set (update_row (columns d) ?F r)" by simp
    then show ?thesis by (auto simp: all_missing_def list_all_iff)
  qed
  then have keep: "filter (\<lambda>r. \<not> all_missing r) (map (update_row (columns d) ?F) (rows d))
      = map (update_row (columns d) ?F) (rows d)"
    by (simp add: filter_id_conv)
  show "rows (make_data_clean (Str s) d ft)
         = map (map fill_cell) (map (update_row (columns d) ?F) (rows d))"
    using cl keep by (simp add: make_data_clean_def fillna_def dropna_rows_def)
  then show "length (rows (make_data_clean (Str s) d ft)) = length (rows d)"
    by simp
qed

text \<open>
  Where \<open>astype(str)\<close> leaves a missing value missing (pandas 3), a row of the input
  without any value is a row without any value after the stripping step, and it is
  dropped.
\<close>

lemma missing_row_is_dropped_when_missing_stays:
  assumes "wf_frame d" and "r \<in> set (rows d)" and "all_missing r"
  shows "length (rows (make_data_clean NaN d ft)) < length (rows d)"
proof -
  let ?F = "\<lambda>l v. if known_column l then clean_cell NaN v else v"
  have "update_row (columns d) ?F r \<in> set (rows (clean_columns NaN d))"
    using assms(1,2) by (simp add: clean_columns_rows)
  moreover have "all_missing (update_row (columns d) ?F r)"
  proof -
    have "?F l v = NaN" if "(l, v) \<in> set (zip (columns d) r)" for l v
    proof -
      have "v \<in> set r" using that by (rule set_zip_rightD)
      then have "v = NaN" using assms(3) by (simp add: all_missing_def list_all_iff)
      then show ?thesis by (simp add: clean_cell_missing_stays)
    qed
    then show ?thesis
      by (auto simp: all_missing_def list_all_iff update_row_def)
  qed
  ultimately have "\<exists>r \<in> set (rows (clean_columns NaN d)). all_missing r" by blast
  then show ?thesis
    using empty_rows_are_dropped [of NaN d ft] by blast
qed

text \<open>
  Claim C3 at a frame of two records, the first without any value and the second without
  a status. Where \<open>astype(str)\<close> turns a missing value into the text \<open>nan\<close> (pandas 1 and 2),
  \<open>make_data_clean\<close> keeps the first record and writes \<open>nan\<close>, not the empty text, for every
  missing value: the conversion runs before \<open>dropna\<close> and \<open>fillna\<close> and leaves them nothing
  to find. Where it leaves a missing value missing (pandas 3), the first record is dropped
  and the missing status becomes the empty text, as the claim says.
\<close>

theorem row_without_values_is_kept_as_nan_text:
  "make_data_clean (Str ''nan'')
     \<lparr>columns = [Name ''BankName'', Name ''Status''],
      rows = [[NaN, NaN], [Str ''Bank: Melli'', NaN]]\<rparr> ValidationOk
   = \<lparr>columns = [Name ''BankName'', Name ''Status''],
      rows = [[Str ''nan'', Str ''nan''], [Str ''Melli'', Str ''nan'']]\<rparr>
   \<and> make_data_clean NaN
       \<lparr>columns = [Name ''BankName'', Name ''Status''],
        rows = [[NaN, NaN], [Str ''Bank: Melli'', NaN]]\<rparr> ValidationOk
     = \<lparr>columns = [Name ''BankName'', Name ''Status''],
        rows = [[Str ''Melli'', Str []]]\<rparr>"
  by (simp add: make_data_clean_def fillna_def dropna_rows_def clean_columns_def
      known_column_def VALIDATION_OK_COLS_def VALIDATION_ERROR_COLS_def map_column_def
      update_row_def clean_cell_def str_map_def astype_str_def sub_label_def strip_def
      is_space_def all_missing_def fill_cell_def)

end
